theory Spec2Isabelle
  imports Complex_Main "HOL-Library.Word"
begin

unbundle bit_operations_syntax

section \<open>BaseConverter: configuration and block sizes\<close>

text \<open>
  A \<open>Uint8Array\<close> is a list of 8-bit words. JavaScript numbers that count things
  (block sizes, indices, digit values) are natural numbers, a \<open>BigInt\<close> is an
  unbounded integer. A string is a list of characters (one \<open>char\<close> per code unit).
\<close>

type_synonym byte = "8 word"

record BaseConverter =
  radix :: nat
  bsEnc :: nat
  bsDec :: nat
  decPadVal :: nat

text \<open>
  \<open>guessBS\<close>: \<open>bsDecPre = (radix < 8) ? radix : Math.ceil(256 / radix)\<close>, then the
  loop \<open>while (bsDecPre > 8 && !(bsDecPre % 8)) bsDecPre /= 8\<close>.
\<close>

definition bsDecPre0 :: "nat \<Rightarrow> nat" where
  "bsDecPre0 r = (if r < 8 then r else (256 + r - 1) div r)"

function reduce8 :: "nat \<Rightarrow> nat" where
  "reduce8 p = (if 8 < p \<and> p mod 8 = 0 then reduce8 (p div 8) else p)"
  by pat_completeness auto
termination
  by (relation "measure (\<lambda>p. p)") auto

declare reduce8.simps [simp del]

text \<open>
  The second loop, \<open>while (((bsEnc * 8) * Math.log(2) / Math.log(radix)) < bsDecPre) bsEnc++\<close>.
  The logarithms are taken at their exact real values; for \<open>radix \<ge> 2\<close> the test
  \<open>8 * bsEnc * ln 2 / ln radix < bsDecPre\<close> is the test \<open>2 ^ (8 * bsEnc) < radix ^ bsDecPre\<close>
  on integers (lemma \<open>log_test_iff\<close> below), which is what the model computes.
\<close>

function searchBsEnc :: "nat \<Rightarrow> nat \<Rightarrow> nat \<Rightarrow> nat" where
  "searchBsEnc r pre e = (if (2::nat) ^ (e * 8) < r ^ pre then searchBsEnc r pre (e + 1) else e)"
  by pat_completeness auto
termination
proof (relation "measure (\<lambda>(r, pre, e). r ^ pre - 2 ^ (e * 8))")
  show "wf (measure (\<lambda>(r, pre, e). r ^ pre - 2 ^ (e * 8)))" by simp
next
  fix r pre e :: nat
  assume a: "(2::nat) ^ (e * 8) < r ^ pre"
  have lt: "(2::nat) ^ (e * 8) < 2 ^ (Suc e * 8)"
    by (rule power_strict_increasing) simp_all
  have "r ^ pre - 2 ^ (Suc e * 8) < r ^ pre - 2 ^ (e * 8)"
    by (rule diff_less_mono2 [OF lt a])
  then show "((r, pre, e + 1), (r, pre, e)) \<in> measure (\<lambda>(r, pre, e). r ^ pre - 2 ^ (e * 8))"
    by simp
qed

declare searchBsEnc.simps [simp del]

text \<open>
  \<open>bsDec = Math.ceil((bsEnc * 8) * Math.log(2) / Math.log(radix))\<close>: for \<open>radix \<ge> 2\<close>
  the least \<open>d\<close> with \<open>2 ^ (8 * bsEnc) \<le> radix ^ d\<close> (lemma \<open>ceil_log_eq\<close> below),
  found by counting up from \<open>d\<close>.
\<close>

function ceilLog :: "nat \<Rightarrow> nat \<Rightarrow> nat \<Rightarrow> nat" where
  "ceilLog r v d = (if 2 \<le> r \<and> r ^ d < v then ceilLog r v (d + 1) else d)"
  by pat_completeness auto
termination
proof (relation "measure (\<lambda>(r, v, d). v - r ^ d)")
  show "wf (measure (\<lambda>(r, v, d). v - r ^ d))" by simp
next
  fix r v d :: nat
  assume a: "2 \<le> r \<and> r ^ d < v"
  then have lt: "r ^ d < r ^ Suc d"
    by (intro power_strict_increasing) simp_all
  have "v - r ^ Suc d < v - r ^ d"
    by (rule diff_less_mono2 [OF lt]) (use a in simp)
  then show "((r, v, d + 1), (r, v, d)) \<in> measure (\<lambda>(r, v, d). v - r ^ d)"
    by simp
qed

declare ceilLog.simps [simp del]

text \<open>
  For \<open>radix = 1\<close> the quotient is \<open>0 / 0\<close>, the loop test is false and \<open>bsDec\<close> is
  \<open>NaN\<close>: no pair of numbers is returned (\<open>None\<close>). For \<open>radix = 0\<close> the quotient is
  \<open>0 / -Infinity\<close> and the result is \<open>[0, -0]\<close>.
\<close>

definition guessBS :: "nat \<Rightarrow> (nat \<times> nat) option" where
  "guessBS r =
     (if r = 0 then Some (0, 0)
      else if r = 1 then None
      else let pre = reduce8 (bsDecPre0 r);
               e = searchBsEnc r pre 0
           in Some (e, ceilLog r (2 ^ (e * 8)) 0))"

text \<open>
  The constructor: \<open>constructor(radix, bsEnc=null, bsDec=null, decPadVal=0)\<close> takes the
  block sizes as given when both are present and derives them with \<open>guessBS\<close> otherwise.
\<close>

definition newBaseConverter :: "nat \<Rightarrow> nat option \<Rightarrow> nat option \<Rightarrow> nat \<Rightarrow> BaseConverter option" where
  "newBaseConverter r e d pad =
     (case (e, d) of
        (Some e', Some d') \<Rightarrow> Some \<lparr>radix = r, bsEnc = e', bsDec = d', decPadVal = pad\<rparr>
      | _ \<Rightarrow> (case guessBS r of
                None \<Rightarrow> None
              | Some (e', d') \<Rightarrow> Some \<lparr>radix = r, bsEnc = e', bsDec = d', decPadVal = pad\<rparr>))"

section \<open>JS numbers\<close>

text \<open>
  A JS number is an IEEE 754 double, and every arithmetic operation returns the double
  nearest to the exact result, a tie going to the even mantissa. \<open>toDouble x\<close> is that
  double for a rational \<open>x \<ge> 0\<close>: the value is written as \<open>m * q\<close> with \<open>q\<close> a power of
  two and \<open>2 ^ 52 \<le> m < 2 ^ 53\<close> (\<open>scaleDown\<close> halves \<open>m\<close> while it is \<open>2 ^ 53\<close> or more,
  \<open>scaleUp\<close> doubles it while it is below \<open>2 ^ 52\<close>; zero is left alone), and \<open>m\<close> is
  rounded to an integer, half to even.
\<close>

function scaleDown :: "rat \<Rightarrow> rat \<Rightarrow> rat \<times> rat" where
  "scaleDown m q = (if 2 ^ 53 \<le> m then scaleDown (m / 2) (q * 2) else (m, q))"
  by pat_completeness auto
termination
proof (relation "measure (\<lambda>(m, q). nat \<lfloor>m\<rfloor>)")
  show "wf (measure (\<lambda>(m, q). nat \<lfloor>m\<rfloor>))" by simp
next
  fix m q :: rat
  assume a: "2 ^ 53 \<le> m"
  then have m: "2 \<le> m" by simp
  have "of_int \<lfloor>m / 2\<rfloor> \<le> m / 2" by (rule of_int_floor_le)
  with m have "of_int (\<lfloor>m / 2\<rfloor> + 1) \<le> m" by simp
  then have "\<lfloor>m / 2\<rfloor> + 1 \<le> \<lfloor>m\<rfloor>" by (simp only: le_floor_iff)
  moreover have "0 \<le> \<lfloor>m\<rfloor>" using m by simp
  ultimately have "nat \<lfloor>m / 2\<rfloor> < nat \<lfloor>m\<rfloor>" by linarith
  then show "((m / 2, q * 2), (m, q)) \<in> measure (\<lambda>(m, q). nat \<lfloor>m\<rfloor>)" by simp
qed

declare scaleDown.simps [simp del]

function scaleUp :: "rat \<Rightarrow> rat \<Rightarrow> rat \<times> rat" where
  "scaleUp m q = (if 0 < m \<and> m < 2 ^ 52 then scaleUp (m * 2) (q / 2) else (m, q))"
  by pat_completeness auto
termination
proof (relation "measure (\<lambda>(m, q). nat \<lfloor>2 ^ 52 / m\<rfloor>)")
  show "wf (measure (\<lambda>(m, q). nat \<lfloor>2 ^ 52 / m\<rfloor>))" by simp
next
  fix m q :: rat
  assume a: "0 < m \<and> m < 2 ^ 52"
  define y where "y = 2 ^ 52 / m"
  have y: "1 \<le> y" using a by (simp add: y_def)
  have h: "2 ^ 52 / (m * 2) = y / 2" by (simp add: y_def)
  have le: "of_int \<lfloor>y / 2\<rfloor> \<le> y / 2" by (rule of_int_floor_le)
  have "of_int (\<lfloor>y / 2\<rfloor> + 1) \<le> y"
  proof (cases "2 \<le> y")
    case True
    with le show ?thesis by simp
  next
    case False
    then have "\<lfloor>y / 2\<rfloor> = 0" using y by (simp add: floor_eq_iff)
    with y show ?thesis by simp
  qed
  then have "\<lfloor>y / 2\<rfloor> + 1 \<le> \<lfloor>y\<rfloor>" by (simp only: le_floor_iff)
  moreover have "0 \<le> \<lfloor>y\<rfloor>" using y by simp
  ultimately have "nat \<lfloor>y / 2\<rfloor> < nat \<lfloor>y\<rfloor>" by linarith
  then show "((m * 2, q / 2), (m, q)) \<in> measure (\<lambda>(m, q). nat \<lfloor>2 ^ 52 / m\<rfloor>)"
    by (simp only: in_measure prod.case h y_def)
qed

declare scaleUp.simps [simp del]

definition roundHalfEven :: "rat \<Rightarrow> int" where
  "roundHalfEven m =
     (if m - of_int \<lfloor>m\<rfloor> < 1 / 2 then \<lfloor>m\<rfloor>
      else if 1 / 2 < m - of_int \<lfloor>m\<rfloor> then \<lfloor>m\<rfloor> + 1
      else if even \<lfloor>m\<rfloor> then \<lfloor>m\<rfloor> else \<lfloor>m\<rfloor> + 1)"

definition toDouble :: "rat \<Rightarrow> rat" where
  "toDouble x =
     (let down = scaleDown x 1;
          up = scaleUp (fst down) (snd down)
      in of_int (roundHalfEven (fst up)) * snd up)"

text \<open>
  The largest finite double is \<open>(2 ^ 53 - 1) * 2 ^ 971\<close>; a result that rounds to
  \<open>2 ^ 1024\<close> is \<open>Infinity\<close> in JS. \<open>toNumber\<close> is \<open>toDouble\<close> with this overflow,
  \<open>None\<close> for \<open>Infinity\<close>.
\<close>

definition toNumber :: "rat \<Rightarrow> rat option" where
  "toNumber x = (let d = toDouble x in if 2 ^ 1024 \<le> d then None else Some d)"

section \<open>BaseConverter: padding arithmetic\<close>

text \<open>
  \<open>padBytes(charCount) = Math.floor((charCount * this.bsDec) / this.bsEnc)\<close> and
  \<open>padChars(byteCount) = Math.ceil((byteCount * this.bsEnc) / this.bsDec)\<close>, in the
  arithmetic of JS numbers. The argument and the two block sizes are numbers with a
  natural value: a natural stands for the double nearest to it, and the block sizes of
  a converter are finite. The product is rounded to a double, then the quotient is;
  \<open>Math.floor\<close> and \<open>Math.ceil\<close> are exact. The result is \<open>None\<close> when the source
  returns \<open>Infinity\<close> or \<open>NaN\<close>, which is no count: the argument or the product
  overflows (\<open>Infinity\<close>, or \<open>NaN\<close> from \<open>Infinity * 0\<close>, and the division keeps it), or
  the divisor is zero (\<open>Infinity\<close>, and \<open>NaN\<close> from \<open>0 / 0\<close>). A quotient below the
  normal range of the doubles is positive and below one in the source as it is here,
  so that its floor and its ceiling are the same.
\<close>

definition padBytes :: "BaseConverter \<Rightarrow> nat \<Rightarrow> nat option" where
  "padBytes c charCount =
     (case toNumber (of_nat charCount) of
        None \<Rightarrow> None
      | Some n \<Rightarrow>
          (case toNumber (n * toDouble (of_nat (bsDec c))) of
             None \<Rightarrow> None
           | Some p \<Rightarrow>
               if bsEnc c = 0 then None
               else Some (nat \<lfloor>toDouble (p / toDouble (of_nat (bsEnc c)))\<rfloor>)))"

definition padChars :: "BaseConverter \<Rightarrow> nat \<Rightarrow> nat option" where
  "padChars c byteCount =
     (case toNumber (of_nat byteCount) of
        None \<Rightarrow> None
      | Some n \<Rightarrow>
          (case toNumber (n * toDouble (of_nat (bsEnc c))) of
             None \<Rightarrow> None
           | Some p \<Rightarrow>
               if bsDec c = 0 then None
               else Some (nat \<lceil>toDouble (p / toDouble (of_nat (bsDec c)))\<rceil>)))"

section \<open>BaseConverter: encode\<close>

text \<open>
  \<open>n = (n << 8n) + BigInt(byteArray[j])\<close> over the bytes of one block, first byte most
  significant.
\<close>

definition bytesToBigInt :: "byte list \<Rightarrow> nat" where
  "bytesToBigInt bs = foldl (\<lambda>n b. push_bit 8 n + unat b) 0 bs"

text \<open>
  The conversion loop \<open>while (q >= radix) { [q, r] = divmod(q, radix); arr.unshift(r) }\<close>
  followed by \<open>arr.unshift(q)\<close>. It is entered only when \<open>radix \<le> q\<close>; for a radix
  below 2 it then divides by zero or never ends, which \<open>digitsOf\<close> reports as \<open>None\<close>.
\<close>

function divLoop :: "nat \<Rightarrow> nat \<Rightarrow> nat list \<Rightarrow> nat list" where
  "divLoop r q acc = (if r \<le> q \<and> 2 \<le> r then divLoop r (q div r) (q mod r # acc) else q # acc)"
  by pat_completeness auto
termination
  by (relation "measure (\<lambda>(r, q, acc). q)") auto

declare divLoop.simps [simp del]

definition digitsOf :: "nat \<Rightarrow> nat \<Rightarrow> nat list option" where
  "digitsOf r n = (if r \<le> n \<and> r < 2 then None else Some (divLoop r n []))"

text \<open>\<open>while (arr.length < size) arr.unshift(0)\<close>\<close>

definition padFront :: "nat \<Rightarrow> nat list \<Rightarrow> nat list" where
  "padFront n xs = replicate (n - length xs) 0 @ xs"

text \<open>
  \<open>frame.concat(charset[charIndex])\<close>: an index beyond the charset reads \<open>undefined\<close>,
  which \<open>concat\<close> appends as the text "undefined".
\<close>

definition charAt :: "string \<Rightarrow> nat \<Rightarrow> string" where
  "charAt charset i = (if i < length charset then [charset ! i] else ''undefined'')"

text \<open>
  The groups of \<open>bs\<close> elements the block loop \<open>for (i = 0; i < l; i += bs)\<close> visits. The
  array is padded to a multiple of \<open>bs\<close> before, so every group is full; \<open>bs = 0\<close> occurs
  only with an empty array.
\<close>

function chunks :: "nat \<Rightarrow> 'a list \<Rightarrow> 'a list list" where
  "chunks bs xs = (if bs = 0 \<or> xs = [] then [] else take bs xs # chunks bs (drop bs xs))"
  by pat_completeness auto
termination
  by (relation "measure (\<lambda>(bs, xs). length xs)") auto

declare chunks.simps [simp del]

text \<open>
  \<open>n.toString()\<close> of a non-negative \<open>BigInt\<close> and \<open>BigInt(str)\<close> of a decimal string.
\<close>

definition digitChar :: "nat \<Rightarrow> char" where
  "digitChar d = char_of (48 + d)"

definition toString :: "nat \<Rightarrow> string" where
  "toString n = map digitChar (divLoop 10 n [])"

definition BigInt :: "string \<Rightarrow> nat" where
  "BigInt s = foldl (\<lambda>n ch. 10 * n + (of_char ch - 48)) 0 s"

text \<open>One block of the generic path: digits, left padding to \<open>bsDec\<close>, charset, replacer.\<close>

definition encodeBlock ::
  "BaseConverter \<Rightarrow> string \<Rightarrow> (string \<Rightarrow> nat \<Rightarrow> string) option \<Rightarrow> nat \<Rightarrow> byte list \<Rightarrow> string option" where
  "encodeBlock c charset replacer zeroPadding block =
     (case digitsOf (radix c) (bytesToBigInt block) of
        None \<Rightarrow> None
      | Some ds \<Rightarrow>
          (let frame = concat (map (charAt charset) (padFront (bsDec c) ds))
           in Some (case replacer of None \<Rightarrow> frame | Some f \<Rightarrow> f frame zeroPadding)))"

fun concatAll :: "string option list \<Rightarrow> string option" where
  "concatAll [] = Some []"
| "concatAll (None # fs) = None"
| "concatAll (Some f # fs) = (case concatAll fs of None \<Rightarrow> None | Some r \<Rightarrow> Some (f @ r))"

text \<open>
  \<open>encode(inputBytes, charset, littleEndian, replacer)\<close>. The result is the state of the
  caller's \<open>inputBytes\<close> after the call (\<open>inputBytes.reverse()\<close> works in place) and the
  returned pair \<open>[output, zeroPadding]\<close>, \<open>None\<close> when no value is returned. In the
  radix-10 shortcut \<open>BigInt(byteArray[i])\<close> throws when \<open>i\<close> is beyond the array.
\<close>

record encodeResult =
  inputBytesAfter :: "byte list"
  returned :: "(string \<times> nat) option"

definition encode ::
  "BaseConverter \<Rightarrow> byte list \<Rightarrow> string \<Rightarrow> bool \<Rightarrow> (string \<Rightarrow> nat \<Rightarrow> string) option \<Rightarrow> encodeResult" where
  "encode c inputBytes charset littleEndian replacer =
     (let bs = (if bsEnc c = 0 then length inputBytes else bsEnc c);
          zeroPadding = (if bs \<noteq> 0 then (bs - length inputBytes mod bs) mod bs else 0);
          zeroArray = replicate zeroPadding (0 :: byte);
          inputBytes' = (if littleEndian then rev inputBytes else inputBytes);
          byteArray = (if littleEndian then zeroArray @ inputBytes' else inputBytes' @ zeroArray)
      in \<lparr>inputBytesAfter = inputBytes',
          returned =
            (if radix c = 10 then
               (if length byteArray < bs then None
                else Some (toString (bytesToBigInt (take bs byteArray)), 0))
             else
               (case concatAll (map (encodeBlock c charset replacer zeroPadding) (chunks bs byteArray)) of
                  None \<Rightarrow> None
                | Some output \<Rightarrow> Some (output, zeroPadding)))\<rparr>)"

section \<open>BaseConverter: decode\<close>

text \<open>\<open>charset.indexOf(c)\<close>: the first position of the character, \<open>None\<close> for \<open>-1\<close>.\<close>

fun indexOf :: "string \<Rightarrow> char \<Rightarrow> nat option" where
  "indexOf [] ch = None"
| "indexOf (x # xs) ch = (if x = ch then Some 0 else map_option Suc (indexOf xs ch))"

text \<open>
  The \<open>forEach\<close> over the characters of the input: the index of every character found in
  the charset is pushed, the others are passed over.
\<close>

fun charIndices :: "string \<Rightarrow> string \<Rightarrow> nat list" where
  "charIndices charset [] = []"
| "charIndices charset (ch # s) =
     (case indexOf charset ch of
        None \<Rightarrow> charIndices charset s
      | Some i \<Rightarrow> i # charIndices charset s)"

text \<open>
  \<open>n += BigInt(byteArray[i+j]) * this.pow(bs-1-j)\<close> for \<open>j = 0 .. bs-1\<close>: in a block of
  \<open>bs\<close> digits the weight exponent of a digit is the number of digits after it.
\<close>

fun blockValue :: "nat \<Rightarrow> nat list \<Rightarrow> nat" where
  "blockValue r [] = 0"
| "blockValue r (d # ds) = d * r ^ length ds + blockValue r ds"

definition decodeBlock :: "BaseConverter \<Rightarrow> nat list \<Rightarrow> nat list" where
  "decodeBlock c block = padFront (bsEnc c) (divLoop 256 (blockValue (radix c) block) [])"

text \<open>
  \<open>while (!b256Array[0]) b256Array.shift()\<close>. On the empty array \<open>b256Array[0]\<close> is
  \<open>undefined\<close>, the test holds and \<open>shift\<close> changes nothing: the loop does not end.
\<close>

partial_function (option) stripZeros :: "nat list \<Rightarrow> nat list option" where
  "stripZeros xs =
     (if xs = [] then stripZeros xs
      else if hd xs = 0 then stripZeros (tl xs)
      else Some xs)"

declare stripZeros.simps [code]

text \<open>
  \<open>b256Array.splice(b256Array.length - padding)\<close> removes everything from the start
  index on; a negative start index counts from the end of the array.
\<close>

definition spliceFrom :: "int \<Rightarrow> 'a list \<Rightarrow> 'a list" where
  "spliceFrom start xs =
     (if start < 0 then take (nat (max (int (length xs) + start) 0)) xs
      else take (nat start) xs)"

text \<open>
  \<open>decode(inputBaseStr, charset, littleEndian)\<close>. \<open>decodeDigits\<close> is the body after the
  index array is built: padding of the digits, the block loop, and the removal of the
  padding (little endian: every leading zero byte, then \<open>reverse\<close>; big endian:
  \<open>padChars(padChars)\<close> bytes at the end; when that count is \<open>Infinity\<close> or \<open>NaN\<close> the
  start of the \<open>splice\<close> is clamped to \<open>0\<close> and every byte is removed). \<open>None\<close>: the call
  does not return.
\<close>

definition decodeDigits :: "BaseConverter \<Rightarrow> nat list \<Rightarrow> bool \<Rightarrow> byte list option" where
  "decodeDigits c byteArray0 littleEndian =
     (let bs = (if bsDec c = 0 then length byteArray0 else bsDec c);
          padChs = (if bsDec c = 0 then 0 else (bs - length byteArray0 mod bs) mod bs);
          fillArray = replicate padChs (decPadVal c);
          byteArray = (if bsDec c = 0 then byteArray0
                       else if littleEndian then fillArray @ byteArray0
                       else byteArray0 @ fillArray);
          b256Array = concat (map (decodeBlock c) (chunks bs byteArray));
          stripped =
            (if littleEndian then
               (if 1 < length b256Array then
                  (case stripZeros b256Array of
                     None \<Rightarrow> None
                   | Some xs \<Rightarrow> Some (rev (if xs = [] then [0] else xs)))
                else Some b256Array)
             else if bsDec c \<noteq> 0 then
               (case padChars c padChs of
                  None \<Rightarrow> Some []
                | Some padding \<Rightarrow>
                    Some (spliceFrom (int (length b256Array) - int padding) b256Array))
             else Some b256Array)
      in map_option (map of_nat) stripped)"

definition decode :: "BaseConverter \<Rightarrow> string \<Rightarrow> string \<Rightarrow> bool \<Rightarrow> byte list option" where
  "decode c inputBaseStr charset littleEndian =
     (if inputBaseStr = [] then Some []
      else decodeDigits c (charIndices charset inputBaseStr) littleEndian)"

section \<open>LEB128\<close>

text \<open>
  The constructor fixes \<open>this.converter = new BaseConverter(10, 0, 0)\<close>,
  \<open>this.hexlify = new BaseConverter(16, 1, 2)\<close> and \<open>littleEndian = true\<close>.
\<close>

definition b10 :: BaseConverter where
  "b10 = \<lparr>radix = 10, bsEnc = 0, bsDec = 0, decPadVal = 0\<rparr>"

definition hexlify :: BaseConverter where
  "hexlify = \<lparr>radix = 16, bsEnc = 1, bsDec = 2, decPadVal = 0\<rparr>"

text \<open>
  The signed loop:
  \<^verbatim>\<open>for (;;) { const byte = Number(n & 127n); n >>= 7n;
    if ((n == 0 && (byte & 64) == 0) || (n == -1 && (byte & 64) != 0)) { output.push(byte); break; }
    output.push(byte | 128); }\<close>
  on a \<open>BigInt\<close>; \<open>>>\<close> is the arithmetic shift.
\<close>

function signedLoop :: "int \<Rightarrow> int list" where
  "signedLoop n =
     (if (drop_bit 7 n = 0 \<and> (n AND 127) AND 64 = 0) \<or> (drop_bit 7 n = - 1 \<and> (n AND 127) AND 64 \<noteq> 0)
      then [n AND 127]
      else ((n AND 127) OR 128) # signedLoop (drop_bit 7 n))"
  by pat_completeness auto
termination
proof (relation "measure (\<lambda>n. nat \<bar>n\<bar>)")
  show "wf (measure (\<lambda>n. nat \<bar>n\<bar>))" by simp
next
  fix n :: int
  assume stop: "\<not> ((drop_bit 7 n = 0 \<and> (n AND 127) AND 64 = 0) \<or>
                    (drop_bit 7 n = - 1 \<and> (n AND 127) AND 64 \<noteq> 0))"
  have n0: "n \<noteq> 0" using stop by auto
  have n1: "n \<noteq> - 1" using stop by auto
  define q where "q = n div 128"
  define r where "r = n mod 128"
  have "n = 128 * q + r" "0 \<le> r" "r < 128"
    by (simp_all add: q_def r_def)
  with n0 n1 have "\<bar>q\<bar> < \<bar>n\<bar>" by linarith
  then have "\<bar>n div 128\<bar> < \<bar>n\<bar>" by (simp add: q_def)
  then show "(drop_bit 7 n, n) \<in> measure (\<lambda>n. nat \<bar>n\<bar>)"
    by (simp add: drop_bit_eq_div)
qed

declare signedLoop.simps [simp del]

text \<open>
  The unsigned loop, \<open>if (n == 0) { output.push(byte); break; }\<close>. It is reached only with
  \<open>negative = false\<close>, where \<open>n\<close> is the non-negative \<open>BigInt(base10)\<close>.
\<close>

function unsignedLoop :: "nat \<Rightarrow> nat list" where
  "unsignedLoop n =
     (if drop_bit 7 n = 0 then [n AND 127]
      else ((n AND 127) OR 128) # unsignedLoop (drop_bit 7 n))"
  by pat_completeness auto
termination
proof (relation "measure (\<lambda>n. n)")
  show "wf (measure (\<lambda>n. n))" by simp
next
  fix n :: nat
  assume "drop_bit 7 n \<noteq> 0"
  then have "n div 128 \<noteq> 0" by (simp add: drop_bit_eq_div)
  then have "n div 128 < n" by simp
  then show "(drop_bit 7 n, n) \<in> measure (\<lambda>n. n)" by (simp add: drop_bit_eq_div)
qed

declare unsignedLoop.simps [simp del]

datatype error = NegativeUnsigned | NoBase10

datatype lebOutput = Bytes "byte list" | HexString string

text \<open>
  \<open>LEB128.encode\<close> from the result \<open>[inputBytes, negative]\<close> of the input handler on.
  \<open>TypeError("Negative values in unsigned mode are invalid.")\<close> is \<open>NegativeUnsigned\<close>;
  \<open>NoBase10\<close> stands for a base-10 conversion that returns nothing. \<open>hex\<close> is
  \<open>settings.version === "hex"\<close>.
\<close>

definition LEB128_encode :: "bool \<Rightarrow> bool \<Rightarrow> byte list \<Rightarrow> bool \<Rightarrow> error + lebOutput" where
  "LEB128_encode signedMode hex inputBytes negative =
     (case returned (encode b10 inputBytes [] True None) of
        None \<Rightarrow> Inl NoBase10
      | Some (base10, zeroPadding) \<Rightarrow>
          (let n = int (BigInt base10) in
           if negative \<and> \<not> signedMode then Inl NegativeUnsigned
           else
             (let n' = (if negative then - n else n);
                  output = (if signedMode then signedLoop n' else map int (unsignedLoop (nat n')));
                  Uint8Output = map of_int output
              in if hex then
                   (case returned (encode hexlify Uint8Output ''0123456789abcdef'' False None) of
                      None \<Rightarrow> Inl NoBase10
                    | Some (str, zp) \<Rightarrow> Inr (HexString str))
                 else Inr (Bytes Uint8Output))))"

text \<open>
  \<open>LEB128.decode\<close>: the accumulation loop
  \<^verbatim>\<open>for (byte of input) { shiftVal += 7n; n += (BigInt(byte & 127) << shiftVal); }\<close>
  started with \<open>n = 0n\<close> and \<open>shiftVal = -7n\<close>, as a fold over the state \<open>(n, shiftVal)\<close>.
\<close>

definition decodeStep :: "int \<times> int \<Rightarrow> byte \<Rightarrow> int \<times> int" where
  "decodeStep st byte =
     (let shiftVal = snd st + 7
      in (fst st + push_bit (nat shiftVal) (int (unat byte AND 127)), shiftVal))"

definition decodeLoop :: "byte list \<Rightarrow> int \<times> int" where
  "decodeLoop input = foldl decodeStep (0, - 7) input"

text \<open>
  The \<open>BigInt\<close> that decode computes: the zero fast path
  \<open>if (input.length === 1 && !input[0])\<close>, the loop, and in signed mode
  \<open>if ((byte & 64) !== 0) n |= -(1n << shiftVal + 7n)\<close> on the last byte read
  (\<open>byte\<close> is \<open>undefined\<close> after a loop over no bytes, and \<open>undefined & 64\<close> is 0).
\<close>

definition LEB128_decode_n :: "bool \<Rightarrow> byte list \<Rightarrow> int" where
  "LEB128_decode_n signedMode input =
     (if length input = 1 \<and> hd input = 0 then 0
      else
        (let (n, shiftVal) = decodeLoop input
         in if signedMode \<and> input \<noteq> [] \<and> unat (last input) AND 64 \<noteq> 0
            then n OR (- push_bit (nat (shiftVal + 7)) 1)
            else n))"

text \<open>
  What decode hands to the output handler: the little-endian bytes of the magnitude,
  from \<open>this.converter.decode(decimalNum, "0123456789", true)\<close>, and the sign taken off
  \<open>n.toString()\<close> by \<open>extractSign\<close>.
\<close>

definition LEB128_decode :: "bool \<Rightarrow> byte list \<Rightarrow> (byte list \<times> bool) option" where
  "LEB128_decode signedMode input =
     (if length input = 1 \<and> hd input = 0 then Some ([0], False)
      else
        (let n = LEB128_decode_n signedMode input;
             negative = (n < 0);
             decimalNum = toString (nat \<bar>n\<bar>)
         in map_option (\<lambda>output. (output, negative)) (decode b10 decimalNum ''0123456789'' True)))"

section \<open>BasePhi\<close>

text \<open>
  Modelled from the spec: the arbitrary-precision decimal arithmetic (\<open>lib/big.js\<close>) is
  not among the sources. Its values are taken as rational numbers with exact \<open>plus\<close>,
  \<open>minus\<close> and comparisons, and \<open>round(dp)\<close> as rounding to \<open>dp\<close> decimal places, half
  away from zero (the library's default rounding mode).
\<close>

definition bigRound :: "nat \<Rightarrow> rat \<Rightarrow> rat" where
  "bigRound dp x = sgn x * of_int \<lfloor>\<bar>x\<bar> * 10 ^ dp + 1 / 2\<rfloor> / 10 ^ dp"

text \<open>The private field \<open>#Phi\<close>, a decimal with 120 places.\<close>

definition Phi :: rat where
  "Phi = 1618033988749894848204586834365638117720309179805762862135448622705260462818902449707207204189391137484754088075386891752 / 10 ^ 120"

text \<open>\<open>#approxNull(n)\<close>: \<open>!(n.round(50).abs().toNumber())\<close>.\<close>

definition approxNull :: "rat \<Rightarrow> bool" where
  "approxNull x = (\<bar>bigRound 50 x\<bar> = 0)"

definition nextPhiExp :: "rat \<Rightarrow> rat \<Rightarrow> rat \<times> rat" where
  "nextPhiExp last' cur = (cur, last' + cur)"

definition prevPhiExp :: "rat \<Rightarrow> rat \<Rightarrow> rat \<times> rat" where
  "prevPhiExp cur prev = (prev - cur, cur)"

text \<open>
  \<open>while (cur.lt(n)) { [last, cur] = this.#nextPhiExp(last, cur); exp++; }\<close>, returning
  \<open>(last, cur, exp)\<close> when the loop ends.
\<close>

partial_function (option) findExp :: "rat \<Rightarrow> rat \<Rightarrow> rat \<Rightarrow> int \<Rightarrow> (rat \<times> rat \<times> int) option" where
  "findExp n last' cur exp' =
     (if cur < n then findExp n (fst (nextPhiExp last' cur)) (snd (nextPhiExp last' cur)) (exp' + 1)
      else Some (last', cur, exp'))"

declare findExp.simps [code]

text \<open>
  The inner loop of \<open>reduceN\<close>,
  \<^verbatim>\<open>while (cur.gt(n)) { [cur, prev] = this.#prevPhiExp(cur, prev);
    if (cur.lte(0)) { console.warn(...); return; }  exp--; }\<close>
  It ends with the power that fits (\<open>Fits cur prev exp\<close>) or leaves \<open>reduceN\<close> with the
  warning (\<open>Underflow\<close>).
\<close>

datatype descent = Fits rat rat int | Underflow

partial_function (option) descend :: "rat \<Rightarrow> rat \<Rightarrow> rat \<Rightarrow> int \<Rightarrow> descent option" where
  "descend n cur prev exp' =
     (if n < cur then
        (if fst (prevPhiExp cur prev) \<le> 0 then Some Underflow
         else descend n (fst (prevPhiExp cur prev)) (snd (prevPhiExp cur prev)) (exp' - 1))
      else Some (Fits cur prev exp'))"

declare descend.simps [code]

text \<open>
  The state the closure \<open>reduceN\<close> works on: the remaining \<open>n\<close>, the two exponent arrays
  and whether the warning was written.
\<close>

record phiState =
  remaining :: rat
  exponents :: "int list"
  decExponents :: "int list"
  warned :: bool

text \<open>\<open>if (exp > -1) exponents.unshift(exp); else decExponents.push(exp);\<close> and \<open>n = n.minus(cur)\<close>.\<close>

definition storeExp :: "int \<Rightarrow> rat \<Rightarrow> phiState \<Rightarrow> phiState" where
  "storeExp exp' cur st =
     (if - 1 < exp'
      then st\<lparr>remaining := remaining st - cur, exponents := exp' # exponents st\<rparr>
      else st\<lparr>remaining := remaining st - cur, decExponents := decExponents st @ [exp']\<rparr>)"

partial_function (option) reduceN :: "rat \<Rightarrow> rat \<Rightarrow> int \<Rightarrow> phiState \<Rightarrow> phiState option" where
  "reduceN cur prev exp' st =
     (if approxNull (remaining st) then Some st
      else
        (case descend (remaining st) cur prev exp' of
           None \<Rightarrow> None
         | Some Underflow \<Rightarrow> Some (st\<lparr>warned := True\<rparr>)
         | Some (Fits cur' prev' exp'') \<Rightarrow> reduceN cur' prev' exp'' (storeExp exp'' cur' st)))"

declare reduceN.simps [code]

text \<open>
  The charset is an array of strings; an index beyond it reads \<open>undefined\<close>, which a
  template literal writes as "undefined".
\<close>

definition charsetAt :: "string list \<Rightarrow> nat \<Rightarrow> string" where
  "charsetAt charset i = (if i < length charset then charset ! i else ''undefined'')"

text \<open>
  The two rendering loops. Integer part, started with \<open>exp = 0\<close>:
  \<^verbatim>\<open>exponents.forEach(nExp => { while (exp < nExp) { output = `${charset[0]}${output}`; exp++; }
      output = `${charset[1]}${output}`; exp++; });\<close>
  Fractional part, started with \<open>exp = -1\<close>:
  \<^verbatim>\<open>decExponents.forEach(nExp => { while (exp > nExp) { output += charset[0]; exp--; }
      output += charset[1]; exp--; });\<close>
\<close>

function padUp :: "string \<Rightarrow> string \<Rightarrow> int \<Rightarrow> int \<Rightarrow> string \<times> int" where
  "padUp zero out exp' nExp = (if exp' < nExp then padUp zero (zero @ out) (exp' + 1) nExp else (out, exp'))"
  by pat_completeness auto
termination
  by (relation "measure (\<lambda>(zero, out, exp', nExp). nat (nExp - exp'))") auto

declare padUp.simps [simp del]

function padDown :: "string \<Rightarrow> string \<Rightarrow> int \<Rightarrow> int \<Rightarrow> string \<times> int" where
  "padDown zero out exp' nExp = (if nExp < exp' then padDown zero (out @ zero) (exp' - 1) nExp else (out, exp'))"
  by pat_completeness auto
termination
  by (relation "measure (\<lambda>(zero, out, exp', nExp). nat (exp' - nExp))") auto

declare padDown.simps [simp del]

fun renderExponents :: "string list \<Rightarrow> string \<times> int \<Rightarrow> int list \<Rightarrow> string \<times> int" where
  "renderExponents charset (out, exp') [] = (out, exp')"
| "renderExponents charset (out, exp') (nExp # rest) =
     (let (out', exp'') = padUp (charsetAt charset 0) out exp' nExp
      in renderExponents charset (charsetAt charset 1 @ out', exp'' + 1) rest)"

fun renderDecExponents :: "string list \<Rightarrow> string \<times> int \<Rightarrow> int list \<Rightarrow> string \<times> int" where
  "renderDecExponents charset (out, exp') [] = (out, exp')"
| "renderDecExponents charset (out, exp') (nExp # rest) =
     (let (out', exp'') = padDown (charsetAt charset 0) out exp' nExp
      in renderDecExponents charset (out' @ charsetAt charset 1, exp'' - 1) rest)"

text \<open>
  \<open>BasePhi.encode\<close> from the \<open>Big\<close> value \<open>n\<close> on (the magnitude, \<open>n \<ge> 0\<close>, of the number
  given in decimal mode or of the integer read from the input bytes) with the sign flag.
  The result is the string and whether the warning was written; \<open>None\<close> when the call
  does not return. For \<open>n\<close> 0 or 1 the string is \<open>charset[n.toNumber()]\<close>.
\<close>

definition BasePhi_encode_n :: "string list \<Rightarrow> rat \<Rightarrow> bool \<Rightarrow> (string \<times> bool) option" where
  "BasePhi_encode_n charset n negative =
     (if n = 0 \<or> n = 1 then
        (let output = charsetAt charset (if n = 0 then 0 else 1)
         in Some (if negative then ''-'' @ output else output, False))
      else
        (case findExp n 1 Phi 0 of
           None \<Rightarrow> None
         | Some (last', cur, exp') \<Rightarrow>
             (case reduceN last' cur exp'
                     \<lparr>remaining = n, exponents = [], decExponents = [], warned = False\<rparr> of
                None \<Rightarrow> None
              | Some st \<Rightarrow>
                  (let out1 = fst (renderExponents charset ([], 0) (exponents st));
                       out2 = (if out1 = [] then ''0.'' else out1 @ ''.'');
                       out3 = fst (renderDecExponents charset (out2, - 1) (decExponents st))
                   in Some (if negative then ''-'' @ out3 else out3, warned st)))))"

text \<open>
  The non-decimal entry: the input bytes are read as one integer by the radix-10
  converter \<open>this.b10 = new BaseConverter(10, 0, 0)\<close> (big endian unless set otherwise).
\<close>

definition BasePhi_encode :: "string list \<Rightarrow> bool \<Rightarrow> byte list \<Rightarrow> bool \<Rightarrow> (string \<times> bool) option" where
  "BasePhi_encode charset littleEndian inputBytes negative =
     (case returned (encode b10 inputBytes [] littleEndian None) of
        None \<Rightarrow> None
      | Some (base10, zeroPadding) \<Rightarrow> BasePhi_encode_n charset (of_nat (BigInt base10)) negative)"

text \<open>
  \<open>BasePhi.decode\<close>. \<open>extractSign\<close> takes a leading "-" off; \<open>input.split(".")\<close> gives the
  integer digits and, when there is a radix point, the fractional digits.
  Modelled from the spec: \<open>normalizeInput\<close> of the utilities is not among the sources; the
  input is taken as the normalised string.
\<close>

definition extractSign :: "string \<Rightarrow> string \<times> bool" where
  "extractSign input =
     (case input of
        [] \<Rightarrow> (input, False)
      | ch # rest \<Rightarrow> if ch = CHR ''-'' then (rest, True) else (input, False))"

fun splitDot :: "string \<Rightarrow> string list" where
  "splitDot [] = [[]]"
| "splitDot (ch # s) =
     (if ch = CHR ''.'' then [] # splitDot s
      else (case splitDot s of p # ps \<Rightarrow> (ch # p) # ps | [] \<Rightarrow> [[ch]]))"

fun indexOfStr :: "string list \<Rightarrow> string \<Rightarrow> nat option" where
  "indexOfStr [] x = None"
| "indexOfStr (y # ys) x = (if y = x then Some 0 else map_option Suc (indexOfStr ys x))"

datatype phiError = CharsetError char

text \<open>
  The loop over the reversed integer digits: state \<open>(n, last, cur)\<close>, started with
  \<open>(0, Phi - 1, 1)\<close>; a character that is neither digit throws \<open>CharsetError\<close>.
\<close>

fun posLoop :: "string list \<Rightarrow> rat \<times> rat \<times> rat \<Rightarrow> string \<Rightarrow> phiError + rat" where
  "posLoop charset (n, last', cur) [] = Inr n"
| "posLoop charset (n, last', cur) (ch # rest) =
     (if indexOfStr charset [ch] = Some 1
      then posLoop charset (n + cur, fst (nextPhiExp last' cur), snd (nextPhiExp last' cur)) rest
      else if indexOfStr charset [ch] \<noteq> Some 0 then Inl (CharsetError ch)
      else posLoop charset (n, fst (nextPhiExp last' cur), snd (nextPhiExp last' cur)) rest)"

text \<open>The loop over the fractional digits: state \<open>(n, cur, prev)\<close>, started with \<open>(n, Phi - 1, 1)\<close>.\<close>

fun decLoop :: "string list \<Rightarrow> rat \<times> rat \<times> rat \<Rightarrow> string \<Rightarrow> phiError + rat" where
  "decLoop charset (n, cur, prev) [] = Inr n"
| "decLoop charset (n, cur, prev) (ch # rest) =
     (if indexOfStr charset [ch] = Some 1
      then decLoop charset (n + cur, fst (prevPhiExp cur prev), snd (prevPhiExp cur prev)) rest
      else if indexOfStr charset [ch] \<noteq> Some 0 then Inl (CharsetError ch)
      else decLoop charset (n, fst (prevPhiExp cur prev), snd (prevPhiExp cur prev)) rest)"

text \<open>
  The result is the integer \<open>n.round()\<close> that decode hands, as a decimal string, to the
  radix-10 converter, and the sign.
\<close>

definition BasePhi_decode :: "string list \<Rightarrow> string \<Rightarrow> phiError + (int \<times> bool)" where
  "BasePhi_decode charset input =
     (let (input', negative) = extractSign input;
          parts = splitDot input';
          posExpStr = hd parts;
          decExpStr = (if 1 < length parts then parts ! 1 else [])
      in case posLoop charset (0, Phi - 1, 1) (rev posExpStr) of
           Inl e \<Rightarrow> Inl e
         | Inr n1 \<Rightarrow>
             (case (if decExpStr \<noteq> [] then decLoop charset (n1, Phi - 1, 1) decExpStr else Inr n1) of
                Inl e \<Rightarrow> Inl e
              | Inr n2 \<Rightarrow> Inr (\<lfloor>bigRound 0 n2\<rfloor>, negative)))"

section \<open>Auxiliary notions for the proofs\<close>

text \<open>
  The digits the block loop of \<open>encode\<close> produces for an array of bytes, all blocks in
  order, before they are mapped through the charset.
\<close>

definition digitsOfBlocks :: "BaseConverter \<Rightarrow> byte list \<Rightarrow> nat list" where
  "digitsOfBlocks c ba =
     concat (map (\<lambda>blk. padFront (bsDec c) (divLoop (radix c) (bytesToBigInt blk) []))
       (chunks (bsEnc c) ba))"

text \<open>
  A byte sequence is continuation-terminated when it is not empty, every byte but the
  last has the continuation bit \<open>0x80\<close> set and the last byte has it clear.
\<close>

definition continuationTerminated :: "byte list \<Rightarrow> bool" where
  "continuationTerminated bs =
     (bs \<noteq> [] \<and> list_all (\<lambda>b. 128 \<le> unat b) (butlast bs) \<and> unat (last bs) < 128)"


text \<open>
  The value of a byte sequence under the decode recurrence, least significant group
  first: what the accumulation loop of \<open>LEB128.decode\<close> computes (lemma \<open>decodeLoop_eq\<close>).
\<close>

fun lebValue :: "byte list \<Rightarrow> nat" where
  "lebValue [] = 0"
| "lebValue (b # bs) = unat b mod 128 + 128 * lebValue bs"

text \<open>
  BasePhi. The values the code has for the powers of \<open>Phi\<close>: \<open>encode\<close> and \<open>decode\<close> start
  from \<open>1\<close> and \<open>Phi\<close> (\<open>Phi - 1\<close> and \<open>1\<close>) and go up with \<open>#nextPhiExp\<close> and down with
  \<open>#prevPhiExp\<close>, so that the value at exponent \<open>e\<close> is \<open>powUp e\<close> for \<open>e \<ge> 0\<close> and
  \<open>powDown (- e)\<close> for \<open>e \<le> 0\<close>. \<open>Phi\<close> is a decimal with 120 places and not the golden
  ratio itself, so the values at negative exponents are positive only down to a
  certain exponent.
\<close>

fun powUp :: "nat \<Rightarrow> rat" where
  "powUp 0 = 1"
| "powUp (Suc 0) = Phi"
| "powUp (Suc (Suc k)) = powUp (Suc k) + powUp k"

fun powDown :: "nat \<Rightarrow> rat" where
  "powDown 0 = 1"
| "powDown (Suc 0) = Phi - 1"
| "powDown (Suc (Suc k)) = powDown k - powDown (Suc k)"

definition phiPow :: "int \<Rightarrow> rat" where
  "phiPow e = (if 0 \<le> e then powUp (nat e) else powDown (nat (- e)))"

text \<open>
  The same values at negative exponents as integers, in units of \<open>10 ^ -120\<close>:
  \<open>scaledDown (Suc k)\<close> is \<open>10 ^ 120 * powDown k\<close>. \<open>allPos k c p\<close> and \<open>lastBelow k c p b\<close>
  run the recurrence from the pair \<open>(c, p)\<close> for \<open>k\<close> steps and test that every value
  met is positive, and that the last one is below \<open>b\<close>.
\<close>

definition PhiNum :: int where
  "PhiNum = 1618033988749894848204586834365638117720309179805762862135448622705260462818902449707207204189391137484754088075386891752"

fun scaledDown :: "nat \<Rightarrow> int" where
  "scaledDown 0 = PhiNum"
| "scaledDown (Suc 0) = 10 ^ 120"
| "scaledDown (Suc (Suc k)) = scaledDown k - scaledDown (Suc k)"

fun allPos :: "nat \<Rightarrow> int \<Rightarrow> int \<Rightarrow> bool" where
  "allPos 0 c p = (0 < c)"
| "allPos (Suc k) c p = (0 < c \<and> allPos k (p - c) c)"

fun lastBelow :: "nat \<Rightarrow> int \<Rightarrow> int \<Rightarrow> int \<Rightarrow> bool" where
  "lastBelow 0 c p b = (c < b)"
| "lastBelow (Suc k) c p b = lastBelow k (p - c) c b"

text \<open>
  The sum of the powers at the exponents of a list, and the invariant of the state of
  \<open>reduceN\<close>: the stored exponents are in order, none is below \<open>b\<close>, the number \<open>n0\<close>
  given to \<open>encode\<close> is what remains plus the powers at the stored exponents, and no
  warning was written.
\<close>

definition sumPow :: "int list \<Rightarrow> rat" where
  "sumPow xs = sum_list (map phiPow xs)"

definition stored :: "rat \<Rightarrow> int \<Rightarrow> phiState \<Rightarrow> bool" where
  "stored n0 b st \<longleftrightarrow>
     sorted_wrt (<) (exponents st) \<and> (\<forall>x\<in>set (exponents st). 0 \<le> x \<and> b \<le> x) \<and>
     sorted_wrt (>) (decExponents st) \<and> (\<forall>x\<in>set (decExponents st). x < 0 \<and> b \<le> x) \<and>
     n0 = remaining st + sumPow (exponents st) + sumPow (decExponents st) \<and> \<not> warned st"


section \<open>Block sizes: the integer tests are the logarithm tests\<close>


lemma ln_pow_nat: "0 < (a::nat) \<Longrightarrow> real k * ln (real a) = ln (real (a ^ k))"
  by (simp add: ln_realpow)

lemma log_test_iff:
  assumes "2 \<le> r"
  shows "(real (e * 8) * ln 2 / ln (real r) < real pre) = ((2::nat) ^ (e * 8) < r ^ pre)"
proof -
  have lr: "0 < ln (real r)" using assms by simp
  have "(real (e * 8) * ln 2 / ln (real r) < real pre)
        = (real (e * 8) * ln (real 2) < real pre * ln (real r))"
    using lr by (simp add: pos_divide_less_eq)
  also have "\<dots> = (ln (real (2 ^ (e * 8))) < ln (real (r ^ pre)))"
    using assms by (simp only: ln_pow_nat [of 2] ln_pow_nat [of r])
  also have "\<dots> = (real (2 ^ (e * 8)) < real (r ^ pre))"
    using assms by (intro ln_less_cancel_iff) simp_all
  also have "\<dots> = ((2::nat) ^ (e * 8) < r ^ pre)"
    by (simp only: of_nat_less_iff)
  finally show ?thesis .
qed

lemma ln_quot_le_iff:
  assumes "2 \<le> r" "0 < v"
  shows "(ln (real v) / ln (real r) \<le> real d) = (v \<le> r ^ d)"
proof -
  have lr: "0 < ln (real r)" using assms by simp
  have "(ln (real v) / ln (real r) \<le> real d) = (ln (real v) \<le> real d * ln (real r))"
    using lr by (simp add: pos_divide_le_eq)
  also have "\<dots> = (ln (real v) \<le> ln (real (r ^ d)))"
    using assms by (simp only: ln_pow_nat [of r])
  also have "\<dots> = (real v \<le> real (r ^ d))"
    using assms by (intro ln_le_cancel_iff) simp_all
  also have "\<dots> = (v \<le> r ^ d)"
    by (simp only: of_nat_le_iff)
  finally show ?thesis .
qed

lemma ceilLog_spec:
  "2 \<le> r \<Longrightarrow> d = 0 \<or> r ^ (d - 1) < v \<Longrightarrow>
   v \<le> r ^ ceilLog r v d \<and> (ceilLog r v d = 0 \<or> r ^ (ceilLog r v d - 1) < v)"
proof (induction r v d rule: ceilLog.induct)
  case (1 r v d)
  show ?case
  proof (cases "r ^ d < v")
    case True
    with "1.prems" have "v \<le> r ^ ceilLog r v (d + 1) \<and>
        (ceilLog r v (d + 1) = 0 \<or> r ^ (ceilLog r v (d + 1) - 1) < v)"
      by (intro "1.IH") simp_all
    moreover have "ceilLog r v d = ceilLog r v (d + 1)"
      using True "1.prems" by (subst ceilLog.simps) simp
    ultimately show ?thesis by simp
  next
    case False
    then have "ceilLog r v d = d" by (subst ceilLog.simps) simp
    with False "1.prems" show ?thesis by auto
  qed
qed

lemma ceil_log_eq:
  assumes "2 \<le> r"
  shows "\<lceil>real (e * 8) * ln 2 / ln (real r)\<rceil> = int (ceilLog r (2 ^ (e * 8)) 0)"
proof -
  define v :: nat where "v = 2 ^ (e * 8)"
  define D where "D = ceilLog r v 0"
  have vpos: "0 < v" by (simp add: v_def)
  have x: "real (e * 8) * ln 2 / ln (real r) = ln (real v) / ln (real r)"
    using ln_pow_nat [of 2 "e * 8"] by (simp add: v_def)
  have spec: "v \<le> r ^ D \<and> (D = 0 \<or> r ^ (D - 1) < v)"
    unfolding D_def using assms by (intro ceilLog_spec) simp_all
  have up: "ln (real v) / ln (real r) \<le> real D"
    using spec ln_quot_le_iff [OF assms vpos, of D] by simp
  have lo: "real D - 1 < ln (real v) / ln (real r)"
  proof (cases "D = 0")
    case True
    have "0 \<le> ln (real v) / ln (real r)" using vpos assms by simp
    with True show ?thesis by simp
  next
    case False
    with spec have "\<not> v \<le> r ^ (D - 1)" by auto
    then have "\<not> ln (real v) / ln (real r) \<le> real (D - 1)"
      using ln_quot_le_iff [OF assms vpos, of "D - 1"] by simp
    with False show ?thesis by (simp add: of_nat_diff)
  qed
  have "\<lceil>ln (real v) / ln (real r)\<rceil> = int D"
    by (rule ceiling_unique) (use lo up in simp_all)
  then show ?thesis by (simp only: x D_def v_def)
qed




lemma guessBS_16: "guessBS 16 = Some (1, 2)"
  by (simp add: guessBS_def bsDecPre0_def reduce8.simps searchBsEnc.simps ceilLog.simps)

lemma guessBS_2: "guessBS 2 = Some (1, 8)"
  by (simp add: guessBS_def bsDecPre0_def reduce8.simps searchBsEnc.simps ceilLog.simps)

lemma guessBS_10: "guessBS 10 = Some (11, 27)"
  by (simp add: guessBS_def bsDecPre0_def reduce8.simps searchBsEnc.simps ceilLog.simps)

text \<open>
  Claim C3, as the code has it. \<open>guessBS\<close> returns \<open>(1, 2)\<close> for radix 16 and \<open>(1, 8)\<close>
  for radix 2. For radix 10 it returns the ordinary block sizes \<open>(11, 27)\<close>; the
  "unblocked" pair \<open>(0, 0)\<close> of the radix-10 converters comes from the explicit
  constructor arguments \<open>new BaseConverter(10, 0, 0)\<close>, which bypass \<open>guessBS\<close>.
\<close>

theorem guessBS_block_sizes:
  "guessBS 16 = Some (1, 2) \<and> guessBS 2 = Some (1, 8) \<and> guessBS 10 = Some (11, 27)
   \<and> newBaseConverter 10 (Some 0) (Some 0) 0
       = Some \<lparr>radix = 10, bsEnc = 0, bsDec = 0, decPadVal = 0\<rparr>"
  by (simp add: guessBS_16 guessBS_2 guessBS_10 newBaseConverter_def)

text \<open>
  Claim C3 as stated (radix 10 yields \<open>bytesPerBlock = 0\<close> from \<open>guessBS\<close>) does not hold.
\<close>

theorem guessBS_radix10_counterexample:
  "\<not> (guessBS 16 = Some (1, 2) \<and> guessBS 2 = Some (1, 8) \<and> fst (the (guessBS 10)) = 0)"
  by (simp add: guessBS_10)

section \<open>Rounding to doubles\<close>

lemma scaleDown_small: "m < 2 ^ 53 \<Longrightarrow> scaleDown m q = (m, q)"
  by (subst scaleDown.simps) simp

lemma scaleDown_spec:
  "0 < m \<Longrightarrow> fst (scaleDown m q) * snd (scaleDown m q) = m * q \<and> 0 < fst (scaleDown m q)"
proof (induction m q rule: scaleDown.induct)
  case (1 m q)
  show ?case
  proof (cases "2 ^ 53 \<le> m")
    case True
    have e: "scaleDown m q = scaleDown (m / 2) (q * 2)"
      using True by (subst scaleDown.simps) simp
    have "0 < m / 2" using "1.prems" by simp
    from "1.IH" [OF True this] show ?thesis by (simp add: e)
  next
    case False
    then have "scaleDown m q = (m, q)" by (simp add: scaleDown_small)
    with "1.prems" show ?thesis by simp
  qed
qed

lemma scaleUp_spec:
  "0 < m \<Longrightarrow> fst (scaleUp m q) * snd (scaleUp m q) = m * q \<and> 2 ^ 52 \<le> fst (scaleUp m q)
     \<and> (m \<in> \<int> \<longrightarrow> fst (scaleUp m q) \<in> \<int>)"
proof (induction m q rule: scaleUp.induct)
  case (1 m q)
  show ?case
  proof (cases "0 < m \<and> m < 2 ^ 52")
    case True
    have e: "scaleUp m q = scaleUp (m * 2) (q / 2)"
      using True by (subst scaleUp.simps) simp
    have "0 < m * 2" using "1.prems" by simp
    from "1.IH" [OF True this] show ?thesis by (auto simp: e)
  next
    case False
    then have "scaleUp m q = (m, q)" by (subst scaleUp.simps) auto
    with "1.prems" False show ?thesis by auto
  qed
qed

lemma roundHalfEven_int: "m \<in> \<int> \<Longrightarrow> of_int (roundHalfEven m) = m"
  by (auto simp: roundHalfEven_def elim!: Ints_cases)

lemma roundHalfEven_near: "\<bar>of_int (roundHalfEven m) - m\<bar> \<le> 1 / 2"
proof -
  define f :: rat where "f = of_int \<lfloor>m\<rfloor>"
  have f: "f \<le> m" "m < f + 1" unfolding f_def by linarith+
  have "roundHalfEven m = \<lfloor>m\<rfloor> \<and> m - f \<le> 1 / 2 \<or>
        roundHalfEven m = \<lfloor>m\<rfloor> + 1 \<and> 1 / 2 \<le> m - f"
    unfolding roundHalfEven_def f_def by auto
  then have "of_int (roundHalfEven m) = f \<and> m - f \<le> 1 / 2 \<or>
        of_int (roundHalfEven m) = f + 1 \<and> 1 / 2 \<le> m - f"
    unfolding f_def by auto
  with f show ?thesis by (auto simp: abs_if)
qed

text \<open>Integers below \<open>2 ^ 53\<close> are doubles.\<close>

lemma toDouble_exact: "z < 2 ^ 53 \<Longrightarrow> toDouble (of_nat z) = of_nat z"
proof (cases "z = 0")
  case True
  then show ?thesis
    by (simp add: toDouble_def Let_def scaleDown_small) (subst scaleUp.simps, simp add: roundHalfEven_def)
next
  case False
  assume "z < 2 ^ 53"
  then have "(of_nat z :: rat) < of_nat (2 ^ 53)" by (simp only: of_nat_less_iff)
  then have lt: "(of_nat z :: rat) < 2 ^ 53" by simp
  have pos: "0 < (of_nat z :: rat)" using False by simp
  have d: "scaleDown (of_nat z) 1 = (of_nat z, 1)" using lt by (rule scaleDown_small)
  have i: "(of_nat z :: rat) \<in> \<int>" by simp
  from scaleUp_spec [OF pos, of 1] i
  have "fst (scaleUp (of_nat z) 1) * snd (scaleUp (of_nat z) 1) = of_nat z"
    and "fst (scaleUp (of_nat z) 1) \<in> \<int>" by simp_all
  then show ?thesis by (simp add: toDouble_def Let_def d roundHalfEven_int)
qed

text \<open>Rounding to nearest changes a positive value by at most the fraction \<open>2 ^ -53\<close> of it.\<close>

lemma toDouble_error: "0 < x \<Longrightarrow> \<bar>toDouble x - x\<bar> \<le> x / 2 ^ 53"
proof -
  assume x: "0 < x"
  define m1 where "m1 = fst (scaleDown x 1)"
  define q1 where "q1 = snd (scaleDown x 1)"
  define m where "m = fst (scaleUp m1 q1)"
  define q where "q = snd (scaleUp m1 q1)"
  have d: "m1 * q1 = x" "0 < m1" using scaleDown_spec [OF x, of 1] by (simp_all add: m1_def q1_def)
  have u: "m * q = x" "2 ^ 52 \<le> m"
    using scaleUp_spec [OF d(2), of q1] d(1) by (simp_all add: m_def q_def)
  have mpos: "0 < m" using u(2) by (rule less_le_trans [rotated]) simp
  have qpos: "0 < q"
  proof (rule ccontr)
    assume "\<not> 0 < q"
    then have "m * q \<le> 0" using mpos by (simp add: mult_le_0_iff)
    with u(1) x show False by simp
  qed
  have "toDouble x - x = (of_int (roundHalfEven m) - m) * q"
    by (simp add: toDouble_def Let_def m_def q_def m1_def q1_def u(1) [unfolded m_def q_def m1_def q1_def] algebra_simps)
  then have "\<bar>toDouble x - x\<bar> = \<bar>of_int (roundHalfEven m) - m\<bar> * q"
    using qpos by (simp add: abs_mult)
  also have "\<dots> \<le> 1 / 2 * q"
    using roundHalfEven_near [of m] qpos by (intro mult_right_mono) simp_all
  also have "\<dots> \<le> x / 2 ^ 53"
  proof -
    have "q * 2 ^ 52 \<le> q * m" using u(2) qpos by (intro mult_left_mono) simp_all
    then have "q * 2 ^ 52 \<le> x" using u(1) by (simp add: mult.commute)
    then show ?thesis by simp
  qed
  finally show ?thesis .
qed

text \<open>
  A quotient of naturals with a numerator below \<open>2 ^ 53\<close> is rounded to a double with
  the same floor and the same ceiling.
\<close>

lemma toDouble_quotient_bounds:
  assumes a: "a < 2 ^ 53" and b: "0 < b" and r: "0 < a mod b"
  shows "of_nat (a div b) < toDouble (of_nat a / of_nat b)"
    and "toDouble (of_nat a / of_nat b) < of_nat (a div b) + 1"
proof -
  define x :: rat where "x = of_nat a / of_nat b"
  define q :: rat where "q = of_nat (a div b)"
  define m :: rat where "m = of_nat (a mod b)"
  define B :: rat where "B = of_nat b"
  have B: "0 < B" using b by (simp add: B_def)
  have "of_nat a = of_nat (a div b * b + a mod b)" by simp
  then have A: "(of_nat a :: rat) = q * B + m"
    by (simp only: of_nat_add of_nat_mult q_def m_def B_def)
  have m: "1 \<le> m" "m + 1 \<le> B"
  proof -
    have "1 \<le> a mod b" using r by simp
    then show "1 \<le> m" unfolding m_def by (metis of_nat_1 of_nat_le_iff)
    have "a mod b + 1 \<le> b" using b by (simp add: Suc_leI)
    then have "(of_nat (a mod b + 1) :: rat) \<le> of_nat b" by (simp only: of_nat_le_iff)
    then show "m + 1 \<le> B" by (simp add: m_def B_def)
  qed
  have xeq: "x = q + m / B" using B by (simp add: x_def A B_def [symmetric] add_divide_distrib)
  have apos: "0 < (of_nat a :: rat)" using A m B by (metis r mod_less_eq_dividend not_gr_zero of_nat_0_less_iff le_zero_eq)
  have xpos: "0 < x" using apos B by (simp add: x_def B_def)
  have "(of_nat a :: rat) < of_nat (2 ^ 53)" using a by (simp only: of_nat_less_iff)
  then have alt: "(of_nat a :: rat) < 2 ^ 53" by simp
  have "x / 2 ^ 53 = (of_nat a / 2 ^ 53) / B" by (simp add: x_def B_def)
  also have "\<dots> < 1 / B" using alt B by (intro divide_strict_right_mono) simp_all
  finally have e: "x / 2 ^ 53 < 1 / B" .
  have err: "\<bar>toDouble x - x\<bar> < 1 / B" using toDouble_error [OF xpos] e by linarith
  have lo: "q \<le> x - 1 / B"
  proof -
    have "x - 1 / B = q + (m - 1) / B" by (simp add: xeq diff_divide_distrib)
    moreover have "0 \<le> (m - 1) / B" using m B by simp
    ultimately show ?thesis by simp
  qed
  have hi: "x + 1 / B \<le> q + 1"
  proof -
    have "x + 1 / B = q + (m + 1) / B" by (simp add: xeq add_divide_distrib)
    moreover have "(m + 1) / B \<le> 1" using m B by simp
    ultimately show ?thesis by simp
  qed
  show "of_nat (a div b) < toDouble (of_nat a / of_nat b)"
    using err lo unfolding x_def [symmetric] q_def [symmetric] by linarith
  show "toDouble (of_nat a / of_nat b) < of_nat (a div b) + 1"
    using err hi unfolding x_def [symmetric] q_def [symmetric] by linarith
qed

lemma toDouble_quotient_exact:
  assumes a: "a < 2 ^ 53" and b: "0 < b" and r: "a mod b = 0"
  shows "toDouble (of_nat a / of_nat b) = of_nat (a div b)"
proof -
  have "a = a div b * b" using r by (simp add: mod_eq_0_iff_dvd)
  then have "(of_nat a :: rat) = of_nat (a div b) * of_nat b"
    by (metis of_nat_mult)
  then have "(of_nat a :: rat) / of_nat b = of_nat (a div b)" using b by simp
  moreover have "a div b < 2 ^ 53" using a by (meson div_le_dividend le_less_trans)
  ultimately show ?thesis by (simp only: toDouble_exact)
qed

lemma floor_toDouble_quotient:
  assumes a: "a < 2 ^ 53" and b: "0 < b"
  shows "\<lfloor>toDouble (of_nat a / of_nat b)\<rfloor> = int (a div b)"
proof (cases "a mod b = 0")
  case True
  then show ?thesis by (simp only: toDouble_quotient_exact [OF a b True] floor_of_nat)
next
  case False
  then have r: "0 < a mod b" by simp
  from toDouble_quotient_bounds [OF a b r]
  show ?thesis by (intro floor_unique) simp_all
qed

lemma ceiling_toDouble_quotient:
  assumes a: "a < 2 ^ 53" and b: "0 < b"
  shows "\<lceil>toDouble (of_nat a / of_nat b)\<rceil> = int ((a + b - 1) div b)"
proof (cases "a mod b = 0")
  case True
  have "(a + b - 1) div b = a div b"
  proof -
    have "a = a div b * b" using True by (simp add: mod_eq_0_iff_dvd)
    then have "a + b - 1 = a div b * b + (b - 1)" using b by simp
    moreover have "(b - 1 + a div b * b) div b = a div b + (b - 1) div b"
      using b by (intro div_mult_self1) simp
    moreover have "(b - 1) div b = 0" using b by simp
    ultimately show ?thesis by (simp add: add.commute)
  qed
  then show ?thesis by (simp only: toDouble_quotient_exact [OF a b True] ceiling_of_nat)
next
  case False
  then have r: "0 < a mod b" by simp
  have "(a + b - 1) div b = a div b + 1"
  proof -
    define q where "q = a div b"
    define m where "m = a mod b"
    have a': "a = q * b + m" by (simp add: q_def m_def)
    have m: "0 < m" "m < b" using r b by (simp_all add: m_def)
    have "a + b - 1 = (m - 1) + (q + 1) * b" using m by (simp add: a')
    moreover have "((m - 1) + (q + 1) * b) div b = (q + 1) + (m - 1) div b"
      using b by (intro div_mult_self1) simp
    moreover have "(m - 1) div b = 0" using m by simp
    ultimately show ?thesis by (simp add: q_def)
  qed
  moreover from toDouble_quotient_bounds [OF a b r]
  have "\<lceil>toDouble (of_nat a / of_nat b)\<rceil> = int (a div b) + 1"
    by (intro ceiling_unique) simp_all
  ultimately show ?thesis by simp
qed

section \<open>Padding arithmetic\<close>

lemma toNumber_exact: "z < 2 ^ 53 \<Longrightarrow> toNumber (of_nat z) = Some (of_nat z)"
proof -
  assume z: "z < 2 ^ 53"
  then have "z < 2 ^ 1024" by (rule less_trans) simp
  then have "(of_nat z :: rat) < of_nat (2 ^ 1024)" by (simp only: of_nat_less_iff)
  then have "(of_nat z :: rat) < 2 ^ 1024" by simp
  then show ?thesis by (simp add: toNumber_def toDouble_exact [OF z])
qed

lemma toNumber_0: "toNumber 0 = Some 0"
  using toNumber_exact [of 0] by simp

lemma toDouble_0: "toDouble 0 = 0"
  using toDouble_exact [of 0] by simp

lemma padBytes_0: "bsEnc c \<noteq> 0 \<Longrightarrow> padBytes c 0 = Some 0"
  by (simp add: padBytes_def toNumber_0 toDouble_0)

lemma padChars_0: "bsDec c \<noteq> 0 \<Longrightarrow> padChars c 0 = Some 0"
  by (simp add: padChars_def toNumber_0 toDouble_0)

lemma factors_small:
  assumes "n * k < (2::nat) ^ 53" and "0 < n" and "0 < k"
  shows "n < 2 ^ 53" and "k < 2 ^ 53"
proof -
  have "n * 1 \<le> n * k" using assms(3) by (intro mult_le_mono2) simp
  then have "n \<le> n * k" by simp
  then show "n < 2 ^ 53" using assms(1) by (rule le_less_trans)
  have "1 * k \<le> n * k" using assms(2) by (intro mult_le_mono1) simp
  then have "k \<le> n * k" by simp
  then show "k < 2 ^ 53" using assms(1) by (rule le_less_trans)
qed

lemma padBytes_exact:
  assumes e: "0 < bsEnc c" and d: "0 < bsDec c"
    and pd: "n * bsDec c < 2 ^ 53" and pe: "n * bsEnc c < 2 ^ 53"
  shows "padBytes c n = Some (n * bsDec c div bsEnc c)"
proof (cases "n = 0")
  case True
  with e show ?thesis by (simp add: padBytes_0)
next
  case False
  then have n: "0 < n" by simp
  note s = factors_small [OF pd n d] factors_small [OF pe n e]
  have p: "toNumber (of_nat n * of_nat (bsDec c)) = Some (of_nat (n * bsDec c))"
    using toNumber_exact [OF pd] by (simp only: of_nat_mult)
  have "\<lfloor>toDouble (of_nat (n * bsDec c) / of_nat (bsEnc c))\<rfloor> = int (n * bsDec c div bsEnc c)"
    by (rule floor_toDouble_quotient [OF pd e])
  then have "nat \<lfloor>toDouble (of_nat (n * bsDec c) / of_nat (bsEnc c))\<rfloor> = n * bsDec c div bsEnc c"
    by (simp only: nat_int)
  with e show ?thesis
    by (simp add: padBytes_def toNumber_exact [OF s(1)] toDouble_exact [OF s(2)]
        toDouble_exact [OF s(4)] p)
qed

lemma padChars_exact:
  assumes e: "0 < bsEnc c" and d: "0 < bsDec c"
    and pd: "n * bsDec c < 2 ^ 53" and pe: "n * bsEnc c < 2 ^ 53"
  shows "padChars c n = Some ((n * bsEnc c + bsDec c - 1) div bsDec c)"
proof (cases "n = 0")
  case True
  with d show ?thesis by (simp add: padChars_0)
next
  case False
  then have n: "0 < n" by simp
  note s = factors_small [OF pd n d] factors_small [OF pe n e]
  have p: "toNumber (of_nat n * of_nat (bsEnc c)) = Some (of_nat (n * bsEnc c))"
    using toNumber_exact [OF pe] by (simp only: of_nat_mult)
  have "\<lceil>toDouble (of_nat (n * bsEnc c) / of_nat (bsDec c))\<rceil>
          = int ((n * bsEnc c + bsDec c - 1) div bsDec c)"
    by (rule ceiling_toDouble_quotient [OF pe d])
  then have "nat \<lceil>toDouble (of_nat (n * bsEnc c) / of_nat (bsDec c))\<rceil>
          = (n * bsEnc c + bsDec c - 1) div bsDec c"
    by (simp only: nat_int)
  with d show ?thesis
    by (simp add: padChars_def toNumber_exact [OF s(1)] toDouble_exact [OF s(2)]
        toDouble_exact [OF s(4)] p)
qed

lemma ceil_div_nat:
  assumes "0 < (b::nat)"
  shows "\<lceil>real a / real b\<rceil> = int ((a + b - 1) div b)"
proof (rule ceiling_unique)
  define q where "q = (a + b - 1) div b"
  define m where "m = (a + b - 1) mod b"
  have e: "a + b - 1 = q * b + m" by (simp add: q_def m_def)
  have m: "m < b" using assms by (simp add: m_def)
  have "a + b = q * b + m + 1" using e assms by simp
  then have "real (a + b) = real (q * b + m + 1)" by (rule arg_cong)
  then have a: "real a = real q * real b + real m + 1 - real b" by simp
  have bpos: "0 < real b" using assms by simp
  have mr: "real m < real b" using m by simp
  have "(real q - 1) * real b < real a"
    using mr by (simp only: a) (simp add: algebra_simps)
  then show "real_of_int (int q) - 1 < real a / real b"
    using bpos by (simp add: pos_less_divide_eq)
  have "real a \<le> real q * real b"
    using mr by (simp only: a) (simp add: algebra_simps)
  then show "real a / real b \<le> real_of_int (int q)"
    using bpos by (simp add: pos_divide_le_eq)
qed

lemma padBytes_floor_eq:
  assumes "0 < bsEnc c" and "0 < bsDec c"
    and "n * bsDec c < 2 ^ 53" and "n * bsEnc c < 2 ^ 53"
  shows "padBytes c n = Some (nat \<lfloor>real (n * bsDec c) / real (bsEnc c)\<rfloor>)"
proof -
  have "\<lfloor>real (n * bsDec c) / real (bsEnc c)\<rfloor> = int (n * bsDec c div bsEnc c)"
    by (rule floor_divide_of_nat_eq)
  then have "nat \<lfloor>real (n * bsDec c) / real (bsEnc c)\<rfloor> = n * bsDec c div bsEnc c"
    by (simp only: nat_int)
  then show ?thesis by (simp only: padBytes_exact [OF assms])
qed

lemma padChars_ceiling_eq:
  assumes "0 < bsEnc c" and "0 < bsDec c"
    and "n * bsDec c < 2 ^ 53" and "n * bsEnc c < 2 ^ 53"
  shows "padChars c n = Some (nat \<lceil>real (n * bsEnc c) / real (bsDec c)\<rceil>)"
proof -
  have "nat \<lceil>real (n * bsEnc c) / real (bsDec c)\<rceil> = (n * bsEnc c + bsDec c - 1) div bsDec c"
    by (simp only: ceil_div_nat [OF assms(2)] nat_int)
  then show ?thesis by (simp only: padChars_exact [OF assms])
qed

lemma floor_8_3: "\<lfloor>(8::real) / 3\<rfloor> = 2"
  by (rule floor_unique) simp_all

lemma ceil_3_4: "\<lceil>(3::real) / 4\<rceil> = 1"
  by (rule ceiling_unique) simp_all

text \<open>
  Claim C2, as the code has it: the two ratios are the other way round than the claim
  states them. \<open>padBytes(x)\<close> is \<open>floor(x * bsDec / bsEnc)\<close> and \<open>padChars(x)\<close> is
  \<open>ceil(x * bsEnc / bsDec)\<close>, for non-zero block sizes and as long as the products
  \<open>x * bsDec\<close> and \<open>x * bsEnc\<close> are below \<open>2 ^ 53\<close>, where the arithmetic of doubles is
  exact on them.
\<close>

theorem padBytes_padChars_formulas:
  "0 < bsEnc c \<Longrightarrow> 0 < bsDec c \<Longrightarrow> n * bsDec c < 2 ^ 53 \<Longrightarrow> n * bsEnc c < 2 ^ 53 \<Longrightarrow>
     padBytes c n = Some (nat \<lfloor>real (n * bsDec c) / real (bsEnc c)\<rfloor>) \<and>
     padChars c n = Some (nat \<lceil>real (n * bsEnc c) / real (bsDec c)\<rceil>)"
  by (simp only: padBytes_floor_eq padChars_ceiling_eq)

theorem padBytes_padChars_formulas_witness:
  "0 < bsEnc \<lparr>radix = 64, bsEnc = 3, bsDec = 4, decPadVal = 0\<rparr> \<and>
   0 < bsDec \<lparr>radix = 64, bsEnc = 3, bsDec = 4, decPadVal = 0\<rparr> \<and>
   2 * bsDec \<lparr>radix = 64, bsEnc = 3, bsDec = 4, decPadVal = 0\<rparr> < 2 ^ 53 \<and>
   2 * bsEnc \<lparr>radix = 64, bsEnc = 3, bsDec = 4, decPadVal = 0\<rparr> < 2 ^ 53 \<and>
   padBytes \<lparr>radix = 64, bsEnc = 3, bsDec = 4, decPadVal = 0\<rparr> 2 = Some 2 \<and>
   padChars \<lparr>radix = 64, bsEnc = 3, bsDec = 4, decPadVal = 0\<rparr> 1 = Some 1"
  using padBytes_padChars_formulas [of "\<lparr>radix = 64, bsEnc = 3, bsDec = 4, decPadVal = 0\<rparr>" 2]
    padBytes_padChars_formulas [of "\<lparr>radix = 64, bsEnc = 3, bsDec = 4, decPadVal = 0\<rparr>" 1]
  by (simp add: floor_8_3 ceil_3_4)

text \<open>
  Claim C2 as stated fails: with \<open>bsEnc = 3\<close> and \<open>bsDec = 4\<close>, \<open>padBytes(2)\<close> is
  \<open>floor(8 / 3) = 2\<close>, not \<open>floor(2 * bsEnc / bsDec) = floor(6 / 4) = 1\<close>.
\<close>

theorem padBytes_claimed_ratio_counterexample:
  "padBytes \<lparr>radix = 64, bsEnc = 3, bsDec = 4, decPadVal = 0\<rparr> 2 = Some 2 \<and>
   nat \<lfloor>real (2 * bsEnc \<lparr>radix = 64, bsEnc = 3, bsDec = 4, decPadVal = 0\<rparr>)
        / real (bsDec \<lparr>radix = 64, bsEnc = 3, bsDec = 4, decPadVal = 0\<rparr>)\<rfloor> = 1"
proof -
  have "padBytes \<lparr>radix = 64, bsEnc = 3, bsDec = 4, decPadVal = 0\<rparr> 2 = Some 2"
    by (simp add: padBytes_exact)
  moreover have "\<lfloor>(6::real) / 4\<rfloor> = 1" by (rule floor_unique) simp_all
  ultimately show ?thesis by simp
qed

text \<open>
  Beyond the bound the rounding shows. With \<open>bsEnc = 3\<close> and \<open>bsDec = 4\<close> at \<open>2 ^ 53 - 1\<close>:
  the quotient \<open>36028797018963964 / 3\<close> lies between \<open>2 ^ 53\<close> and \<open>2 ^ 54\<close>, where the
  doubles are the even integers, and is rounded up to \<open>12009599006321322\<close>, one more
  than the exact floor; the product \<open>27021597764222973\<close> lies between \<open>2 ^ 54\<close> and
  \<open>2 ^ 55\<close>, where the doubles are the multiples of four, and is rounded down to
  \<open>27021597764222972\<close>, so that \<open>padChars\<close> is one less than the exact ceiling
  \<open>6755399441055744\<close>.
\<close>

lemma toDouble_quotient_2_53:
  "toDouble (36028797018963964 / 3) = 12009599006321322"
proof -
  have "scaleDown (36028797018963964 / 3) 1 = (36028797018963964 / 6, 2)"
    by (simp add: scaleDown.simps)
  moreover have "scaleUp (36028797018963964 / 6) 2 = (36028797018963964 / 6, 2)"
    by (simp add: scaleUp.simps)
  moreover have "\<lfloor>(36028797018963964::rat) / 6\<rfloor> = 6004799503160660"
    by (rule floor_unique) simp_all
  then have "roundHalfEven (36028797018963964 / 6) = 6004799503160661"
    unfolding roundHalfEven_def by simp
  ultimately show ?thesis by (simp add: toDouble_def Let_def)
qed

lemma toDouble_product_2_53:
  "toDouble 27021597764222973 = 27021597764222972"
proof -
  have "scaleDown 27021597764222973 1 = (27021597764222973 / 4, 4)"
    by (simp add: scaleDown.simps)
  moreover have "scaleUp (27021597764222973 / 4) 4 = (27021597764222973 / 4, 4)"
    by (simp add: scaleUp.simps)
  moreover have "\<lfloor>(27021597764222973::rat) / 4\<rfloor> = 6755399441055743"
    by (rule floor_unique) simp_all
  then have "roundHalfEven (27021597764222973 / 4) = 6755399441055743"
    unfolding roundHalfEven_def by simp
  ultimately show ?thesis by (simp add: toDouble_def Let_def)
qed

lemma toDouble_4_2_53: "toDouble 36028797018963964 = 36028797018963964"
proof -
  have "scaleDown 36028797018963964 1 = (9007199254740991, 4)"
    by (simp add: scaleDown.simps)
  moreover have "scaleUp 9007199254740991 4 = (9007199254740991, 4)"
    by (simp add: scaleUp.simps)
  moreover have "roundHalfEven 9007199254740991 = 9007199254740991"
    using roundHalfEven_int [of 9007199254740991] by simp
  ultimately show ?thesis by (simp add: toDouble_def Let_def)
qed

lemma pad_beyond_2_53:
  "padBytes \<lparr>radix = 64, bsEnc = 3, bsDec = 4, decPadVal = 0\<rparr> 9007199254740991
     = Some 12009599006321322"
  "padChars \<lparr>radix = 64, bsEnc = 3, bsDec = 4, decPadVal = 0\<rparr> 9007199254740991
     = Some 6755399441055743"
proof -
  have n: "toNumber 9007199254740991 = Some 9007199254740991"
    using toNumber_exact [of 9007199254740991] by simp
  have d3: "toDouble 3 = 3" using toDouble_exact [of 3] by simp
  have d4: "toDouble 4 = 4" using toDouble_exact [of 4] by simp
  have p4: "toNumber 36028797018963964 = Some 36028797018963964"
    by (simp add: toNumber_def toDouble_4_2_53)
  have p3: "toNumber 27021597764222973 = Some 27021597764222972"
    by (simp add: toNumber_def toDouble_product_2_53)
  have q: "toDouble (6755399441055743) = 6755399441055743"
    using toDouble_exact [of 6755399441055743] by simp
  show "padBytes \<lparr>radix = 64, bsEnc = 3, bsDec = 4, decPadVal = 0\<rparr> 9007199254740991
     = Some 12009599006321322"
    by (simp add: padBytes_def n d3 d4 p4 toDouble_quotient_2_53)
  show "padChars \<lparr>radix = 64, bsEnc = 3, bsDec = 4, decPadVal = 0\<rparr> 9007199254740991
     = Some 6755399441055743"
    by (simp add: padChars_def n d3 d4 p3 q)
qed

section \<open>Evaluation on concrete inputs\<close>

lemmas enc_eval = encode_def Let_def chunks.simps encodeBlock_def digitsOf_def divLoop.simps
  bytesToBigInt_def padFront_def charAt_def push_bit_eq_mult

lemmas dec_eval = decode_def decodeDigits_def Let_def chunks.simps decodeBlock_def divLoop.simps
  padFront_def padChars_0 spliceFrom_def

section \<open>Unknown characters\<close>

lemma charIndices_filter:
  "charIndices cs (filter (\<lambda>ch. ch \<in> set cs) s) = charIndices cs s"
proof (induction s)
  case Nil
  show ?case by simp
next
  case (Cons a s)
  have none: "indexOf cs a = None \<longleftrightarrow> a \<notin> set cs" for a
    by (induction cs) auto
  show ?case
  proof (cases "a \<in> set cs")
    case True
    then show ?thesis using Cons by (simp split: option.splits)
  next
    case False
    then have "indexOf cs a = None" by (simp add: none)
    with False Cons show ?thesis by simp
  qed
qed

lemma shuffles_junk_filter:
  assumes "s' \<in> shuffles s junk" "set junk \<inter> set cs = {}"
  shows "filter (\<lambda>ch. ch \<in> set cs) s' = filter (\<lambda>ch. ch \<in> set cs) s"
proof -
  have "filter (\<lambda>ch. ch \<in> set cs) junk = []"
    using assms(2) by (auto simp: filter_empty_conv)
  moreover have "filter (\<lambda>ch. ch \<in> set cs) s' \<in> filter (\<lambda>ch. ch \<in> set cs) ` shuffles s junk"
    using assms(1) by (rule imageI)
  ultimately show ?thesis by (simp add: filter_shuffles)
qed

lemma decodeDigits_Nil: "decodeDigits c [] le = Some []"
  by (simp add: decodeDigits_def chunks.simps padChars_0 spliceFrom_def Let_def)

lemma decode_eq_decodeDigits: "decode c s cs le = decodeDigits c (charIndices cs s) le"
proof (cases "s = []")
  case True
  then show ?thesis by (simp add: decode_def decodeDigits_Nil)
next
  case False
  then show ?thesis by (simp add: decode_def)
qed

lemma indexOf_first:
  "ch \<in> set cs \<Longrightarrow> indexOf cs ch = Some (length (takeWhile (\<lambda>x. x \<noteq> ch) cs))"
  by (induction cs) auto

lemma indexOf_unknown: "ch \<notin> set cs \<Longrightarrow> indexOf cs ch = None"
  by (induction cs) auto

lemma charIndices_known:
  "charIndices cs s
     = map (\<lambda>ch. length (takeWhile (\<lambda>x. x \<noteq> ch) cs)) (filter (\<lambda>ch. ch \<in> set cs) s)"
proof (induction s)
  case Nil
  show ?case by simp
next
  case (Cons a s)
  show ?case
  proof (cases "a \<in> set cs")
    case True
    then show ?thesis using Cons by (simp add: indexOf_first)
  next
    case False
    then show ?thesis using Cons by (simp add: indexOf_unknown)
  qed
qed

text \<open>
  Claim C8. Let \<open>s'\<close> be obtained from \<open>s\<close> by inserting, at arbitrary positions,
  characters that do not occur in the charset (\<open>s'\<close> is an interleaving of \<open>s\<close> with a
  string \<open>junk\<close> of such characters). Then exactly the inserted characters are passed
  over and every other one is kept: the digits that \<open>decode\<close> collects from \<open>s'\<close> are
  the first positions in the charset of the characters of \<open>s\<close> that occur in the
  charset, one digit for each, in their order; \<open>decode\<close> of \<open>s'\<close> is the decoding of
  these digits; and it is what \<open>decode\<close> of \<open>s\<close> is, for every converter and both byte
  orders (this includes the case that neither call returns).
\<close>

theorem decode_ignores_unknown_characters:
  assumes "s' \<in> shuffles s junk" and "set junk \<inter> set charset = {}"
  shows "charIndices charset s'
           = map (\<lambda>ch. length (takeWhile (\<lambda>x. x \<noteq> ch) charset))
               (filter (\<lambda>ch. ch \<in> set charset) s) \<and>
         decode c s' charset littleEndian
           = decodeDigits c (map (\<lambda>ch. length (takeWhile (\<lambda>x. x \<noteq> ch) charset))
               (filter (\<lambda>ch. ch \<in> set charset) s)) littleEndian \<and>
         decode c s' charset littleEndian = decode c s charset littleEndian"
proof -
  have f: "filter (\<lambda>ch. ch \<in> set charset) s' = filter (\<lambda>ch. ch \<in> set charset) s"
    by (rule shuffles_junk_filter [OF assms])
  have a: "charIndices charset s'
           = map (\<lambda>ch. length (takeWhile (\<lambda>x. x \<noteq> ch) charset))
               (filter (\<lambda>ch. ch \<in> set charset) s)"
    by (simp only: charIndices_known f)
  have b: "charIndices charset s' = charIndices charset s"
    by (simp only: charIndices_known f)
  show ?thesis
    by (simp only: decode_eq_decodeDigits a [symmetric] b)
qed

theorem decode_ignores_unknown_characters_witness:
  "''0-1:f-f'' \<in> shuffles ''01ff'' ''-:-'' \<and> set ''-:-'' \<inter> set ''0123456789abcdef'' = {} \<and>
   (charIndices ''0123456789abcdef'' ''0-1:f-f''
      = map (\<lambda>ch. length (takeWhile (\<lambda>x. x \<noteq> ch) ''0123456789abcdef''))
          (filter (\<lambda>ch. ch \<in> set ''0123456789abcdef'') ''01ff'') \<and>
    decode \<lparr>radix = 16, bsEnc = 1, bsDec = 2, decPadVal = 0\<rparr> ''0-1:f-f'' ''0123456789abcdef'' False
      = decodeDigits \<lparr>radix = 16, bsEnc = 1, bsDec = 2, decPadVal = 0\<rparr>
          (map (\<lambda>ch. length (takeWhile (\<lambda>x. x \<noteq> ch) ''0123456789abcdef''))
             (filter (\<lambda>ch. ch \<in> set ''0123456789abcdef'') ''01ff'')) False \<and>
    decode \<lparr>radix = 16, bsEnc = 1, bsDec = 2, decPadVal = 0\<rparr> ''0-1:f-f'' ''0123456789abcdef'' False
      = decode \<lparr>radix = 16, bsEnc = 1, bsDec = 2, decPadVal = 0\<rparr> ''01ff'' ''0123456789abcdef'' False) \<and>
   charIndices ''0123456789abcdef'' ''0-1:f-f'' = [0, 1, 15, 15] \<and>
   decode \<lparr>radix = 16, bsEnc = 1, bsDec = 2, decPadVal = 0\<rparr> ''0-1:f-f'' ''0123456789abcdef'' False
     = Some [1, 255]"
proof -
  have a: "''0-1:f-f'' \<in> shuffles ''01ff'' ''-:-''" by simp
  have b: "set ''-:-'' \<inter> set ''0123456789abcdef'' = {}" by simp
  have i: "charIndices ''0123456789abcdef'' ''0-1:f-f'' = [0, 1, 15, 15]" by simp
  have d: "decode \<lparr>radix = 16, bsEnc = 1, bsDec = 2, decPadVal = 0\<rparr> ''0-1:f-f''
      ''0123456789abcdef'' False = Some [1, 255]"
    by (simp add: dec_eval)
  show ?thesis
    using a b i d decode_ignores_unknown_characters [OF a b,
        of "\<lparr>radix = 16, bsEnc = 1, bsDec = 2, decPadVal = 0\<rparr>" False]
    by blast
qed

section \<open>encode and the caller's buffer\<close>

lemma encode_inputBytesAfter:
  "inputBytesAfter (encode c b cs le rp) = (if le then rev b else b)"
  by (simp add: encode_def Let_def)

text \<open>
  Claim C4 at a concrete input: after a little-endian \<open>encode\<close> of the bytes \<open>[1, 2]\<close>
  the caller's array holds \<open>[2, 1]\<close>.
\<close>

theorem encode_littleEndian_reverses_inputBytes:
  "inputBytesAfter (encode \<lparr>radix = 16, bsEnc = 1, bsDec = 2, decPadVal = 0\<rparr>
      [1, 2] ''0123456789abcdef'' True None) = [2, 1]"
  by (simp add: encode_def Let_def)

section \<open>The little-endian strip loop\<close>

lemma stripZeros_Some_nonempty: "stripZeros xs = Some ys \<Longrightarrow> xs \<noteq> []"
proof -
  assume a: "stripZeros xs = Some ys"
  show ?thesis
    by (rule stripZeros.raw_induct [where P = "\<lambda>xs ys. xs \<noteq> []", OF _ a])
       (auto split: if_splits)
qed

lemma stripZeros_Nil: "stripZeros [] = None"
proof (cases "stripZeros []")
  case None
  then show ?thesis .
next
  case (Some ys)
  then show ?thesis using stripZeros_Some_nonempty by blast
qed

lemma stripZeros_zeros:
  "x \<noteq> 0 \<Longrightarrow> stripZeros (replicate k 0 @ x # xs) = Some (x # xs)"
proof (induction k)
  case 0
  then show ?case by (subst stripZeros.simps) simp
next
  case (Suc k)
  then show ?case by (subst stripZeros.simps) simp
qed

section \<open>Positional digits\<close>

lemma divLoop_stop: "\<not> (r \<le> q \<and> 2 \<le> r) \<Longrightarrow> divLoop r q acc = q # acc"
  by (subst divLoop.simps) auto

lemma divLoop_rec:
  "r \<le> q \<Longrightarrow> 2 \<le> r \<Longrightarrow> divLoop r q acc = divLoop r (q div r) (q mod r # acc)"
  by (subst divLoop.simps) simp

lemma divLoop_acc: "divLoop r q acc = divLoop r q [] @ acc"
proof (induction q arbitrary: acc rule: less_induct)
  case (less q)
  show ?case
  proof (cases "r \<le> q \<and> 2 \<le> r")
    case True
    then have lt: "q div r < q" by simp
    have "divLoop r q acc = divLoop r (q div r) (q mod r # acc)"
      using True by (simp add: divLoop_rec)
    also have "\<dots> = divLoop r (q div r) [] @ (q mod r # acc)"
      by (rule less.IH [OF lt])
    also have "\<dots> = (divLoop r (q div r) [] @ [q mod r]) @ acc" by simp
    also have "divLoop r (q div r) [] @ [q mod r] = divLoop r (q div r) [q mod r]"
      by (rule less.IH [OF lt, symmetric])
    also have "\<dots> = divLoop r q []"
      using True by (simp add: divLoop_rec)
    finally show ?thesis .
  next
    case False
    then show ?thesis by (simp add: divLoop_stop)
  qed
qed

lemma divLoop_step:
  "2 \<le> r \<Longrightarrow> r \<le> q \<Longrightarrow> divLoop r q [] = divLoop r (q div r) [] @ [q mod r]"
  by (simp add: divLoop_rec divLoop_acc [of r "q div r" "[q mod r]"])

lemma divLoop_small: "q < r \<Longrightarrow> divLoop r q [] = [q]"
  by (simp add: divLoop_stop)

lemma blockValue_append:
  "blockValue r (xs @ ys) = blockValue r xs * r ^ length ys + blockValue r ys"
  by (induction xs) (simp_all add: power_add algebra_simps)

lemma blockValue_zeros: "blockValue r (replicate k 0 @ ds) = blockValue r ds"
  by (induction k) simp_all

lemma blockValue_divLoop: "2 \<le> r \<Longrightarrow> blockValue r (divLoop r n []) = n"
proof (induction n rule: less_induct)
  case (less n)
  show ?case
  proof (cases "r \<le> n")
    case True
    with less.prems have "n div r < n" by simp
    then have "blockValue r (divLoop r (n div r) []) = n div r"
      using less by simp
    then show ?thesis
      using True less.prems by (simp add: divLoop_step blockValue_append)
  next
    case False
    then show ?thesis by (simp add: divLoop_small)
  qed
qed

lemma divLoop_digits_less: "2 \<le> r \<Longrightarrow> d \<in> set (divLoop r n []) \<Longrightarrow> d < r"
proof (induction n arbitrary: d rule: less_induct)
  case (less n)
  show ?case
  proof (cases "r \<le> n")
    case True
    with less.prems have lt: "n div r < n" by simp
    from less.prems True have "d \<in> set (divLoop r (n div r) []) \<or> d = n mod r"
      by (auto simp: divLoop_step)
    then show ?thesis
      using less.IH [OF lt] less.prems(1) by auto
  next
    case False
    with less.prems show ?thesis by (simp add: divLoop_small)
  qed
qed

lemma divLoop_length: "2 \<le> r \<Longrightarrow> n < r ^ k \<Longrightarrow> 0 < k \<Longrightarrow> length (divLoop r n []) \<le> k"
proof (induction n arbitrary: k rule: less_induct)
  case (less n)
  show ?case
  proof (cases "r \<le> n")
    case True
    with less.prems have lt: "n div r < n" by simp
    from True less.prems have "1 < k"
      by (cases "k = 1") (auto simp: Suc_lessI)
    then obtain k' where k: "k = Suc k'" "0 < k'" by (cases k) auto
    have "n div r < r ^ k'"
      using less.prems(2) k by (simp add: less_mult_imp_div_less mult.commute)
    then have "length (divLoop r (n div r) []) \<le> k'"
      using less.IH [OF lt less.prems(1)] k by simp
    then show ?thesis using True less.prems k by (simp add: divLoop_step)
  next
    case False
    with less.prems show ?thesis by (simp add: divLoop_small)
  qed
qed

lemma blockValue_bound: "(\<And>d. d \<in> set ds \<Longrightarrow> d < r) \<Longrightarrow> blockValue r ds < r ^ length ds"
proof (induction ds)
  case Nil
  show ?case by simp
next
  case (Cons a ds)
  have a: "a < r" using Cons.prems by simp
  have ih: "blockValue r ds < r ^ length ds" using Cons by simp
  have "a * r ^ length ds + blockValue r ds < a * r ^ length ds + r ^ length ds"
    using ih by simp
  also have "\<dots> = (a + 1) * r ^ length ds" by (simp add: algebra_simps)
  also have "\<dots> \<le> r * r ^ length ds"
    using a by (intro mult_le_mono1) simp
  finally show ?case by simp
qed

text \<open>Uniqueness of the fixed-width representation.\<close>
lemma padFront_divLoop_blockValue:
  assumes r: "2 \<le> r" and ds: "\<And>d. d \<in> set ds \<Longrightarrow> d < r" and ne: "ds \<noteq> []"
  shows "padFront (length ds) (divLoop r (blockValue r ds) []) = ds"
  using ds ne
proof (induction ds rule: rev_induct)
  case Nil
  then show ?case by simp
next
  case (snoc x xs)
  have x: "x < r" using snoc.prems by simp
  have xs: "\<And>d. d \<in> set xs \<Longrightarrow> d < r" using snoc.prems by simp
  have v: "blockValue r (xs @ [x]) = blockValue r xs * r + x"
    by (simp add: blockValue_append)
  show ?case
  proof (cases "xs = []")
    case True
    then show ?thesis using x by (simp add: divLoop_small padFront_def)
  next
    case False
    have ih: "padFront (length xs) (divLoop r (blockValue r xs) []) = xs"
      using snoc.IH xs False by simp
    have len: "length (divLoop r (blockValue r xs) []) \<le> length xs"
      using False by (intro divLoop_length r blockValue_bound xs) simp_all
    show ?thesis
    proof (cases "blockValue r xs = 0")
      case True
      then have "divLoop r (blockValue r xs) [] = [0]" using r by (simp add: divLoop_small)
      with ih have xs0: "xs = replicate (length xs - 1) 0 @ [0]" by (simp add: padFront_def)
      have "blockValue r (xs @ [x]) = x" using v True by simp
      then have "padFront (length (xs @ [x])) (divLoop r (blockValue r (xs @ [x])) [])
                 = replicate (length xs) 0 @ [x]"
        using x by (simp add: divLoop_small padFront_def)
      also have "replicate (length xs) 0 = xs"
      proof -
        have "replicate (length xs) (0::nat) = replicate (length xs - 1) 0 @ [0]"
          using False by (cases "length xs") (simp_all add: replicate_append_same)
        with xs0 show ?thesis by simp
      qed
      finally show ?thesis .
    next
      case False
      then obtain m where m: "blockValue r xs = Suc m"
        by (cases "blockValue r xs") auto
      have ge: "r \<le> blockValue r xs * r + x" by (simp add: m)
      have "divLoop r (blockValue r (xs @ [x])) [] = divLoop r (blockValue r xs) [] @ [x]"
        using r ge x by (simp add: v divLoop_step)
      then show ?thesis using ih len by (simp add: padFront_def)
    qed
  qed
qed

lemma bytesToBigInt_blockValue: "bytesToBigInt bs = blockValue 256 (map unat bs)"
proof -
  have "foldl (\<lambda>n b. push_bit 8 n + unat b) a bs
        = a * 256 ^ length bs + blockValue 256 (map unat bs)" for a
    by (induction bs arbitrary: a) (simp_all add: push_bit_eq_mult algebra_simps)
  from this [of 0] show ?thesis by (simp add: bytesToBigInt_def)
qed

section \<open>Blocks and charsets\<close>

lemma chunks_Nil: "chunks k [] = []"
  by (subst chunks.simps) simp

lemma chunks_step: "0 < k \<Longrightarrow> xs \<noteq> [] \<Longrightarrow> chunks k xs = take k xs # chunks k (drop k xs)"
  by (subst chunks.simps) simp

lemma chunks_concat:
  "0 < k \<Longrightarrow> (\<And>xs. xs \<in> set xss \<Longrightarrow> length xs = k) \<Longrightarrow> chunks k (concat xss) = xss"
proof (induction xss)
  case Nil
  show ?case by (simp add: chunks_Nil)
next
  case (Cons a xss)
  have a: "length a = k" using Cons.prems by simp
  with Cons.prems(1) have ne: "a @ concat xss \<noteq> []" by auto
  have "chunks k (concat (a # xss)) = take k (a @ concat xss) # chunks k (drop k (a @ concat xss))"
    using chunks_step [OF Cons.prems(1) ne] by simp
  also have "\<dots> = a # chunks k (concat xss)" using a by simp
  also have "chunks k (concat xss) = xss" using Cons by simp
  finally show ?case .
qed

lemma concat_chunks: "0 < k \<Longrightarrow> concat (chunks k xs) = xs"
proof (induction "length xs" arbitrary: xs rule: less_induct)
  case less
  show ?case
  proof (cases "xs = []")
    case True
    then show ?thesis by (simp add: chunks_Nil)
  next
    case False
    with less.prems have "length (drop k xs) < length xs" by simp
    then have "concat (chunks k (drop k xs)) = drop k xs" using less by simp
    then show ?thesis using False less.prems by (simp add: chunks_step)
  qed
qed

lemma chunks_lengths:
  "0 < k \<Longrightarrow> length xs mod k = 0 \<Longrightarrow> ys \<in> set (chunks k xs) \<Longrightarrow> length ys = k"
proof (induction "length xs" arbitrary: xs rule: less_induct)
  case less
  show ?case
  proof (cases "xs = []")
    case True
    with less.prems show ?thesis by (simp add: chunks_Nil)
  next
    case False
    with less.prems have lt: "length (drop k xs) < length xs" by simp
    have kle: "k \<le> length xs"
      using less.prems(1,2) False by (metis length_0_conv mod_less not_le)
    then have m: "length (drop k xs) mod k = 0"
      using less.prems(2) by (simp add: le_mod_geq [symmetric])
    from less.prems False have "ys = take k xs \<or> ys \<in> set (chunks k (drop k xs))"
      by (simp add: chunks_step)
    then show ?thesis
    proof
      assume "ys = take k xs"
      then show ?thesis using kle by simp
    next
      assume "ys \<in> set (chunks k (drop k xs))"
      then show ?thesis using less.hyps [OF lt less.prems(1) m] by simp
    qed
  qed
qed

lemma indexOf_nth: "distinct cs \<Longrightarrow> i < length cs \<Longrightarrow> indexOf cs (cs ! i) = Some i"
proof (induction cs arbitrary: i)
  case Nil
  then show ?case by simp
next
  case (Cons a cs)
  show ?case
  proof (cases i)
    case 0
    then show ?thesis by simp
  next
    case (Suc j)
    with Cons.prems have "cs ! j \<in> set cs" "a \<notin> set cs" by auto
    then have "a \<noteq> cs ! j" by auto
    with Suc Cons show ?thesis by simp
  qed
qed

lemma charIndices_map_nth:
  "distinct cs \<Longrightarrow> (\<And>d. d \<in> set ds \<Longrightarrow> d < length cs) \<Longrightarrow> charIndices cs (map ((!) cs) ds) = ds"
  by (induction ds) (simp_all add: indexOf_nth)

lemma concatAll_Some: "concatAll (map (\<lambda>x. Some (f x)) xs) = Some (concat (map f xs))"
  by (induction xs) simp_all

lemma concat_charAt:
  "(\<And>d. d \<in> set ds \<Longrightarrow> d < length cs) \<Longrightarrow> concat (map (charAt cs) ds) = map ((!) cs) ds"
  by (induction ds) (simp_all add: charAt_def)

lemma bytesToBigInt_bound: "bytesToBigInt blk < 256 ^ length blk"
proof -
  have "blockValue 256 (map unat blk) < 256 ^ length (map unat blk)"
  proof (rule blockValue_bound)
    fix d assume "d \<in> set (map unat blk)"
    then obtain w :: byte where "d = unat w" by auto
    then show "d < 256" using unsigned_less [of w, where 'a = nat] by simp
  qed
  then show ?thesis by (simp add: bytesToBigInt_blockValue)
qed

lemma padFront_length: "length xs \<le> n \<Longrightarrow> length (padFront n xs) = n"
  by (simp add: padFront_def)

lemma padFront_set: "d \<in> set (padFront n xs) \<Longrightarrow> d = 0 \<or> d \<in> set xs"
  by (auto simp: padFront_def)

lemma blockDigits_length:
  assumes "2 \<le> radix c" "0 < bsEnc c" "256 ^ bsEnc c \<le> radix c ^ bsDec c" "length blk = bsEnc c"
  shows "length (padFront (bsDec c) (divLoop (radix c) (bytesToBigInt blk) [])) = bsDec c"
proof -
  have pos: "0 < bsDec c"
  proof (rule ccontr)
    assume "\<not> 0 < bsDec c"
    then have "(256::nat) ^ bsEnc c \<le> 1" using assms(3) by simp
    moreover have "(1::nat) < 256 ^ bsEnc c" using assms(2) by (intro one_less_power) simp_all
    ultimately show False by simp
  qed
  have "bytesToBigInt blk < 256 ^ bsEnc c"
    using bytesToBigInt_bound [of blk] assms(4) by simp
  then have "bytesToBigInt blk < radix c ^ bsDec c" using assms(3) by simp
  then have "length (divLoop (radix c) (bytesToBigInt blk) []) \<le> bsDec c"
    using assms(1) pos by (intro divLoop_length)
  then show ?thesis by (rule padFront_length)
qed

lemma blockDigits_less:
  assumes "2 \<le> radix c" "d \<in> set (padFront (bsDec c) (divLoop (radix c) n []))"
  shows "d < radix c"
  using padFront_set [OF assms(2)] divLoop_digits_less [OF assms(1), of d n] assms(1) by auto

lemma encodeBlock_ok:
  assumes "2 \<le> radix c" "length charset = radix c"
  shows "encodeBlock c charset None zp blk
         = Some (map ((!) charset) (padFront (bsDec c) (divLoop (radix c) (bytesToBigInt blk) [])))"
proof -
  have "digitsOf (radix c) (bytesToBigInt blk) = Some (divLoop (radix c) (bytesToBigInt blk) [])"
    using assms(1) by (simp add: digitsOf_def)
  moreover have "concat (map (charAt charset) (padFront (bsDec c) (divLoop (radix c) (bytesToBigInt blk) [])))
        = map ((!) charset) (padFront (bsDec c) (divLoop (radix c) (bytesToBigInt blk) []))"
    by (rule concat_charAt) (use blockDigits_less [OF assms(1)] assms(2) in simp)
  ultimately show ?thesis by (simp add: encodeBlock_def)
qed

lemma decodeBlock_ok:
  assumes "2 \<le> radix c" "0 < bsEnc c" "length blk = bsEnc c"
  shows "decodeBlock c (padFront (bsDec c) (divLoop (radix c) (bytesToBigInt blk) [])) = map unat blk"
proof -
  have "blockValue (radix c) (padFront (bsDec c) (divLoop (radix c) (bytesToBigInt blk) []))
        = bytesToBigInt blk"
    using assms(1) by (simp add: padFront_def blockValue_zeros blockValue_divLoop)
  then have "decodeBlock c (padFront (bsDec c) (divLoop (radix c) (bytesToBigInt blk) []))
        = padFront (length (map unat blk)) (divLoop 256 (blockValue 256 (map unat blk)) [])"
    using assms(3) by (simp add: decodeBlock_def bytesToBigInt_blockValue)
  also have "\<dots> = map unat blk"
  proof (rule padFront_divLoop_blockValue)
    show "(2::nat) \<le> 256" by simp
    show "map unat blk \<noteq> []" using assms(2,3) by auto
    fix d assume "d \<in> set (map unat blk)"
    then obtain w :: byte where "d = unat w" by auto
    then show "d < 256" using unsigned_less [of w, where 'a = nat] by simp
  qed
  finally show ?thesis .
qed

text \<open>The digit string of a list of full blocks, and what the block loop of decode makes of it.\<close>

lemma encode_blocks:
  assumes "2 \<le> radix c" "length charset = radix c"
  shows "concatAll (map (encodeBlock c charset None zp) blks)
         = Some (map ((!) charset)
             (concat (map (\<lambda>blk. padFront (bsDec c) (divLoop (radix c) (bytesToBigInt blk) [])) blks)))"
proof -
  have "map (encodeBlock c charset None zp) blks
        = map (\<lambda>blk. Some (map ((!) charset) (padFront (bsDec c) (divLoop (radix c) (bytesToBigInt blk) [])))) blks"
    by (simp add: encodeBlock_ok [OF assms])
  then show ?thesis by (simp only: concatAll_Some) (simp add: map_concat comp_def)
qed

lemma decode_blocks:
  assumes "2 \<le> radix c" "0 < bsEnc c" "256 ^ bsEnc c \<le> radix c ^ bsDec c"
    and "\<And>blk. blk \<in> set blks \<Longrightarrow> length blk = bsEnc c"
  shows "concat (map (decodeBlock c) (chunks (bsDec c)
           (concat (map (\<lambda>blk. padFront (bsDec c) (divLoop (radix c) (bytesToBigInt blk) [])) blks))))
         = map unat (concat blks)"
proof -
  have pos: "0 < bsDec c"
  proof (rule ccontr)
    assume "\<not> 0 < bsDec c"
    then have "(256::nat) ^ bsEnc c \<le> 1" using assms(3) by simp
    moreover have "(1::nat) < 256 ^ bsEnc c" using assms(2) by (intro one_less_power) simp_all
    ultimately show False by simp
  qed
  have c1: "chunks (bsDec c)
           (concat (map (\<lambda>blk. padFront (bsDec c) (divLoop (radix c) (bytesToBigInt blk) [])) blks))
        = map (\<lambda>blk. padFront (bsDec c) (divLoop (radix c) (bytesToBigInt blk) [])) blks"
    by (rule chunks_concat [OF pos]) (use blockDigits_length [OF assms(1-3)] assms(4) in auto)
  have c2: "map (decodeBlock c) (map (\<lambda>blk. padFront (bsDec c) (divLoop (radix c) (bytesToBigInt blk) [])) blks)
        = map (map unat) blks"
    using decodeBlock_ok [OF assms(1,2)] assms(4) by simp
  show ?thesis by (simp only: c1 c2) (simp add: map_concat)
qed

lemma digits_total_length:
  assumes "2 \<le> radix c" "0 < bsEnc c" "256 ^ bsEnc c \<le> radix c ^ bsDec c"
    and "\<And>blk. blk \<in> set blks \<Longrightarrow> length blk = bsEnc c"
  shows "length (concat (map (\<lambda>blk. padFront (bsDec c) (divLoop (radix c) (bytesToBigInt blk) [])) blks)) mod bsDec c = 0"
proof -
  have "length (concat (map (\<lambda>blk. padFront (bsDec c) (divLoop (radix c) (bytesToBigInt blk) [])) blks))
        = length blks * bsDec c"
    using assms(4)
  proof (induction blks)
    case Nil
    show ?case by simp
  next
    case (Cons a blks)
    then show ?case using blockDigits_length [OF assms(1-3), of a] by simp
  qed
  then show ?thesis by simp
qed

section \<open>Round trip of decode after encode\<close>

lemma zeroPadding_mod: "0 < bs \<Longrightarrow> (n + (bs - n mod bs) mod bs) mod bs = (0::nat)"
proof (cases "n mod bs = 0")
  case True
  assume "0 < bs"
  with True show ?thesis by simp
next
  case False
  assume bs: "0 < bs"
  have lt: "n mod bs < bs" using bs by simp
  then have "(bs - n mod bs) mod bs = bs - n mod bs" using False by simp
  moreover have "(n + (bs - n mod bs)) mod bs = (n mod bs + (bs - n mod bs)) mod bs"
    by (simp add: mod_add_left_eq)
  moreover have "n mod bs + (bs - n mod bs) = bs" using lt by simp
  ultimately show ?thesis by simp
qed

lemma of_nat_unat_bytes: "map of_nat (map unat (bs :: byte list)) = bs"
  by (induction bs) simp_all

lemma encode_unfold:
  assumes "radix c \<noteq> 10" "0 < bsEnc c"
  shows "returned (encode c b cs le rp) =
     (case concatAll (map (encodeBlock c cs rp ((bsEnc c - length b mod bsEnc c) mod bsEnc c))
        (chunks (bsEnc c)
           (if le then replicate ((bsEnc c - length b mod bsEnc c) mod bsEnc c) 0 @ rev b
            else b @ replicate ((bsEnc c - length b mod bsEnc c) mod bsEnc c) 0))) of
        None \<Rightarrow> None
      | Some out \<Rightarrow> Some (out, (bsEnc c - length b mod bsEnc c) mod bsEnc c))"
  using assms by (simp add: encode_def Let_def)

text \<open>
  The digit string encode returns for a padded array of full blocks, and the byte values
  the block loop of decode reads back from it.
\<close>

lemma bsDec_pos:
  assumes "0 < bsEnc c" "256 ^ bsEnc c \<le> radix c ^ bsDec c"
  shows "0 < bsDec c"
proof (rule ccontr)
  assume "\<not> 0 < bsDec c"
  then have "(256::nat) ^ bsEnc c \<le> 1" using assms(2) by simp
  moreover have "(1::nat) < 256 ^ bsEnc c" using assms(1) by (intro one_less_power) simp_all
  ultimately show False by simp
qed

lemma encode_returned:
  assumes r: "2 \<le> radix c" and r10: "radix c \<noteq> 10" and e: "0 < bsEnc c"
    and l: "length charset = radix c"
    and zp: "zp = (bsEnc c - length b mod bsEnc c) mod bsEnc c"
    and ba: "ba = (if le then replicate zp 0 @ rev b else b @ replicate zp 0)"
  shows "returned (encode c b charset le None) = Some (map ((!) charset) (digitsOfBlocks c ba), zp)"
proof -
  have "returned (encode c b charset le None) =
     (case concatAll (map (encodeBlock c charset None zp) (chunks (bsEnc c) ba)) of
        None \<Rightarrow> None | Some out \<Rightarrow> Some (out, zp))"
    by (simp only: encode_unfold [OF r10 e] zp [symmetric] ba [symmetric])
  then show ?thesis
    by (simp add: encode_blocks [OF r l] digitsOfBlocks_def)
qed

lemma padded_length:
  assumes e: "0 < bsEnc c"
    and zp: "zp = (bsEnc c - length b mod bsEnc c) mod bsEnc c"
    and ba: "ba = (if le then replicate zp 0 @ rev b else b @ replicate zp (0::byte))"
  shows "length ba mod bsEnc c = 0"
  using zeroPadding_mod [OF e, of "length b"] by (simp add: ba zp add.commute)

lemma charIndices_digitsOfBlocks:
  assumes r: "2 \<le> radix c" and d: "distinct charset" and l: "length charset = radix c"
  shows "charIndices charset (map ((!) charset) (digitsOfBlocks c ba)) = digitsOfBlocks c ba"
proof (rule charIndices_map_nth [OF d])
  fix x assume "x \<in> set (digitsOfBlocks c ba)"
  then show "x < length charset"
    using blockDigits_less [OF r] l by (auto simp: digitsOfBlocks_def)
qed

lemma digitsOfBlocks_length:
  assumes r: "2 \<le> radix c" and e: "0 < bsEnc c" and fit: "256 ^ bsEnc c \<le> radix c ^ bsDec c"
    and m: "length ba mod bsEnc c = 0"
  shows "length (digitsOfBlocks c ba) mod bsDec c = 0"
  unfolding digitsOfBlocks_def
  by (rule digits_total_length [OF r e fit]) (rule chunks_lengths [OF e m])

lemma digitsOfBlocks_decoded:
  assumes r: "2 \<le> radix c" and e: "0 < bsEnc c" and fit: "256 ^ bsEnc c \<le> radix c ^ bsDec c"
    and m: "length ba mod bsEnc c = 0"
  shows "concat (map (decodeBlock c) (chunks (bsDec c) (digitsOfBlocks c ba))) = map unat ba"
proof -
  have "concat (map (decodeBlock c) (chunks (bsDec c) (digitsOfBlocks c ba)))
        = map unat (concat (chunks (bsEnc c) ba))"
    unfolding digitsOfBlocks_def
    by (rule decode_blocks [OF r e fit]) (rule chunks_lengths [OF e m])
  then show ?thesis by (simp add: concat_chunks [OF e])
qed

lemma digitsOfBlocks_Nil: "digitsOfBlocks c [] = []"
  by (simp add: digitsOfBlocks_def chunks_Nil)

lemma of_nat_unat_comp: "map (of_nat \<circ> unat) (bs :: byte list) = bs"
  by (induction bs) simp_all

lemma decodeDigits_BE:
  assumes pos: "bsDec c \<noteq> 0"
    and "length ds mod bsDec c = 0"
    and "concat (map (decodeBlock c) (chunks (bsDec c) ds)) = map unat b"
  shows "decodeDigits c ds False = Some b"
  using assms
  by (simp add: decodeDigits_def Let_def padChars_0 spliceFrom_def of_nat_unat_comp)

lemma decodeDigits_LE:
  assumes pos: "bsDec c \<noteq> 0"
    and "length ds mod bsDec c = 0"
    and "concat (map (decodeBlock c) (chunks (bsDec c) ds)) = xs"
    and "1 < length xs"
  shows "decodeDigits c ds True =
     (case stripZeros xs of None \<Rightarrow> None
      | Some ys \<Rightarrow> Some (map of_nat (rev (if ys = [] then [0] else ys))))"
  using assms
  by (simp add: decodeDigits_def Let_def split: option.splits)

lemma decodeDigits_LE_short:
  assumes pos: "bsDec c \<noteq> 0"
    and "length ds mod bsDec c = 0"
    and "concat (map (decodeBlock c) (chunks (bsDec c) ds)) = xs"
    and "\<not> 1 < length xs"
  shows "decodeDigits c ds True = Some (map of_nat xs)"
  using assms
  by (simp add: decodeDigits_def Let_def)

lemma roundtrip_BE:
  assumes r: "2 \<le> radix c" and r10: "radix c \<noteq> 10" and e: "0 < bsEnc c"
    and fit: "256 ^ bsEnc c \<le> radix c ^ bsDec c"
    and d: "distinct charset" and l: "length charset = radix c"
    and m: "length b mod bsEnc c = 0"
  shows "returned (encode c b charset False None) = Some (map ((!) charset) (digitsOfBlocks c b), 0) \<and>
         decode c (map ((!) charset) (digitsOfBlocks c b)) charset False = Some b"
proof -
  have zp: "0 = (bsEnc c - length b mod bsEnc c) mod bsEnc c" using m by simp
  have ba: "b = (if False then replicate 0 0 @ rev b else b @ replicate 0 0)" by simp
  have pos: "bsDec c \<noteq> 0" using bsDec_pos [OF e fit] by simp
  have "decodeDigits c (digitsOfBlocks c b) False = Some b"
    by (rule decodeDigits_BE [OF pos digitsOfBlocks_length [OF r e fit m]
          digitsOfBlocks_decoded [OF r e fit m]])
  then have "decode c (map ((!) charset) (digitsOfBlocks c b)) charset False = Some b"
    by (simp only: decode_eq_decodeDigits charIndices_digitsOfBlocks [OF r d l])
  with encode_returned [OF r r10 e l zp ba] show ?thesis by simp
qed

lemma roundtrip_LE:
  assumes r: "2 \<le> radix c" and r10: "radix c \<noteq> 10" and e: "0 < bsEnc c"
    and fit: "256 ^ bsEnc c \<le> radix c ^ bsDec c"
    and d: "distinct charset" and l: "length charset = radix c"
    and m: "b = [] \<or> last b \<noteq> 0"
    and zp: "zp = (bsEnc c - length b mod bsEnc c) mod bsEnc c"
  shows "returned (encode c b charset True None)
           = Some (map ((!) charset) (digitsOfBlocks c (replicate zp 0 @ rev b)), zp) \<and>
         decode c (map ((!) charset) (digitsOfBlocks c (replicate zp 0 @ rev b))) charset True = Some b"
proof -
  define ba where "ba = (if True then replicate zp 0 @ rev b else b @ replicate zp 0)"
  have ba': "ba = replicate zp 0 @ rev b" by (simp add: ba_def)
  have pos: "bsDec c \<noteq> 0" using bsDec_pos [OF e fit] by simp
  have len: "length ba mod bsEnc c = 0" by (rule padded_length [OF e zp ba_def])
  note dl = digitsOfBlocks_length [OF r e fit len]
  note dd = digitsOfBlocks_decoded [OF r e fit len]
  have "decodeDigits c (digitsOfBlocks c ba) True = Some b"
  proof (cases "b = []")
    case True
    then have "ba = []" by (simp add: ba' zp)
    with True show ?thesis by (simp add: digitsOfBlocks_Nil decodeDigits_Nil)
  next
    case False
    with m have nz: "last b \<noteq> 0" by simp
    from False obtain x xs where rb: "rev b = x # xs" by (cases "rev b") auto
    then have "x = last b" using False by (metis last_rev list.sel(1) rev_rev_ident)
    with nz have x: "unat x \<noteq> 0" by (simp add: unat_eq_0)
    have arr: "map unat ba = replicate zp 0 @ unat x # map unat xs"
      by (simp add: ba' rb)
    have fin: "map of_nat (rev (unat x # map unat xs)) = b"
    proof -
      have "rev (unat x # map unat xs) = map unat (rev (x # xs))" by (simp add: rev_map)
      also have "rev (x # xs) = b" using rb by (metis rev_rev_ident)
      finally show ?thesis by (simp only: of_nat_unat_bytes)
    qed
    show ?thesis
    proof (cases "1 < length (map unat ba)")
      case True
      have "stripZeros (map unat ba) = Some (unat x # map unat xs)"
        unfolding arr by (rule stripZeros_zeros [OF x])
      then show ?thesis
        using fin by (simp only: decodeDigits_LE [OF pos dl dd True]) simp
    next
      case False
      then have "length (replicate zp (0::nat) @ unat x # map unat xs) \<le> 1"
        unfolding arr by simp
      then have "zp = 0 \<and> xs = []" by simp
      then have "map of_nat (map unat ba) = b" using fin arr by simp
      then show ?thesis
        by (simp only: decodeDigits_LE_short [OF pos dl dd False])
    qed
  qed
  then have "decode c (map ((!) charset) (digitsOfBlocks c ba)) charset True = Some b"
    by (simp only: decode_eq_decodeDigits charIndices_digitsOfBlocks [OF r d l])
  with encode_returned [OF r r10 e l zp ba_def] show ?thesis by (simp add: ba')
qed

text \<open>
  Claim C1, as the code has it. For a blocked converter (\<open>radix \<noteq> 10\<close>, \<open>bsEnc > 0\<close>)
  whose block sizes lose nothing (\<open>256 ^ bsEnc \<le> radix ^ bsDec\<close>) and a duplicate-free
  charset of length \<open>radix\<close>: big endian, \<open>decode\<close> of the string returned by \<open>encode\<close>
  is the input when its length is a multiple of \<open>bsEnc\<close> (no padding bytes were added);
  little endian, it is the input when the input is empty or its last byte is not zero.
\<close>

theorem decode_encode_roundtrip:
  assumes "2 \<le> radix c" and "radix c \<noteq> 10" and "0 < bsEnc c"
    and "256 ^ bsEnc c \<le> radix c ^ bsDec c"
    and "distinct charset" and "length charset = radix c"
  shows "(length b mod bsEnc c = 0 \<longrightarrow>
            (\<exists>s zp. returned (encode c b charset False None) = Some (s, zp) \<and>
                    decode c s charset False = Some b)) \<and>
         (b = [] \<or> last b \<noteq> 0 \<longrightarrow>
            (\<exists>s zp. returned (encode c b charset True None) = Some (s, zp) \<and>
                    decode c s charset True = Some b))"
proof (intro conjI impI)
  assume a: "length b mod bsEnc c = 0"
  show "\<exists>s zp. returned (encode c b charset False None) = Some (s, zp) \<and>
                decode c s charset False = Some b"
    by (rule exI [of _ "map ((!) charset) (digitsOfBlocks c b)"], rule exI [of _ 0])
       (rule roundtrip_BE [OF assms a])
next
  assume a: "b = [] \<or> last b \<noteq> 0"
  show "\<exists>s zp. returned (encode c b charset True None) = Some (s, zp) \<and>
                decode c s charset True = Some b"
    by (rule exI, rule exI) (rule roundtrip_LE [OF assms a refl])
qed

theorem decode_encode_roundtrip_witness:
  "2 \<le> radix \<lparr>radix = 16, bsEnc = 1, bsDec = 2, decPadVal = 0\<rparr> \<and>
   radix \<lparr>radix = 16, bsEnc = 1, bsDec = 2, decPadVal = 0\<rparr> \<noteq> 10 \<and>
   0 < bsEnc \<lparr>radix = 16, bsEnc = 1, bsDec = 2, decPadVal = 0\<rparr> \<and>
   (256::nat) ^ bsEnc \<lparr>radix = 16, bsEnc = 1, bsDec = 2, decPadVal = 0\<rparr>
      \<le> radix \<lparr>radix = 16, bsEnc = 1, bsDec = 2, decPadVal = 0\<rparr>
          ^ bsDec \<lparr>radix = 16, bsEnc = 1, bsDec = 2, decPadVal = 0\<rparr> \<and>
   distinct ''0123456789abcdef'' \<and>
   length ''0123456789abcdef'' = radix \<lparr>radix = 16, bsEnc = 1, bsDec = 2, decPadVal = 0\<rparr> \<and>
   length [1, 255 :: byte] mod bsEnc \<lparr>radix = 16, bsEnc = 1, bsDec = 2, decPadVal = 0\<rparr> = 0 \<and>
   last [1, 255 :: byte] \<noteq> 0 \<and>
   (\<exists>s zp. returned (encode \<lparr>radix = 16, bsEnc = 1, bsDec = 2, decPadVal = 0\<rparr>
                [1, 255] ''0123456789abcdef'' False None) = Some (s, zp) \<and>
           decode \<lparr>radix = 16, bsEnc = 1, bsDec = 2, decPadVal = 0\<rparr> s ''0123456789abcdef'' False
             = Some [1, 255]) \<and>
   (\<exists>s zp. returned (encode \<lparr>radix = 16, bsEnc = 1, bsDec = 2, decPadVal = 0\<rparr>
                [1, 255] ''0123456789abcdef'' True None) = Some (s, zp) \<and>
           decode \<lparr>radix = 16, bsEnc = 1, bsDec = 2, decPadVal = 0\<rparr> s ''0123456789abcdef'' True
             = Some [1, 255])"
  using decode_encode_roundtrip [of "\<lparr>radix = 16, bsEnc = 1, bsDec = 2, decPadVal = 0\<rparr>"
      "''0123456789abcdef''" "[1, 255]"]
  by simp

text \<open>
  Claim C1 as stated fails. Little endian, radix 16: the bytes \<open>[1, 0]\<close> are encoded as
  "0001", which decodes to \<open>[1]\<close> (every leading zero byte is removed before the
  reversal). Big endian, radix 64 with blocks of 3 bytes and 4 digits: the byte \<open>[1]\<close>
  is encoded as "AQAA" with two padding bytes, which decodes to \<open>[1, 0, 0]\<close>.
\<close>

theorem decode_encode_counterexample:
  "returned (encode \<lparr>radix = 16, bsEnc = 1, bsDec = 2, decPadVal = 0\<rparr>
      [1, 0] ''0123456789abcdef'' True None) = Some (''0001'', 0) \<and>
   decode \<lparr>radix = 16, bsEnc = 1, bsDec = 2, decPadVal = 0\<rparr> ''0001'' ''0123456789abcdef'' True
     = Some [1] \<and>
   returned (encode \<lparr>radix = 64, bsEnc = 3, bsDec = 4, decPadVal = 0\<rparr>
      [1] ''ABCDEFGHIJKLMNOPQRSTUVWXYZabcdefghijklmnopqrstuvwxyz0123456789+/'' False None)
     = Some (''AQAA'', 2) \<and>
   decode \<lparr>radix = 64, bsEnc = 3, bsDec = 4, decPadVal = 0\<rparr> ''AQAA''
      ''ABCDEFGHIJKLMNOPQRSTUVWXYZabcdefghijklmnopqrstuvwxyz0123456789+/'' False
     = Some [1, 0, 0]"
proof -
  have r2: "replicate 2 (0::byte) = [0, 0]" by (simp add: numeral_2_eq_2)
  have "returned (encode \<lparr>radix = 16, bsEnc = 1, bsDec = 2, decPadVal = 0\<rparr>
      [1, 0] ''0123456789abcdef'' True None) = Some (''0001'', 0)"
    by (simp add: enc_eval)
  moreover have "decode \<lparr>radix = 16, bsEnc = 1, bsDec = 2, decPadVal = 0\<rparr> ''0001''
      ''0123456789abcdef'' True = Some [1]"
    by (simp add: dec_eval stripZeros.simps)
  moreover have "returned (encode \<lparr>radix = 64, bsEnc = 3, bsDec = 4, decPadVal = 0\<rparr>
      [1] ''ABCDEFGHIJKLMNOPQRSTUVWXYZabcdefghijklmnopqrstuvwxyz0123456789+/'' False None)
     = Some (''AQAA'', 2)"
    by (simp add: enc_eval r2)
  moreover have "decode \<lparr>radix = 64, bsEnc = 3, bsDec = 4, decPadVal = 0\<rparr> ''AQAA''
      ''ABCDEFGHIJKLMNOPQRSTUVWXYZabcdefghijklmnopqrstuvwxyz0123456789+/'' False
     = Some [1, 0, 0]"
    by (simp add: dec_eval)
  ultimately show ?thesis by (intro conjI)
qed

section \<open>LEB128: bit operations as arithmetic\<close>

lemma and_127_nat: "(n::nat) AND 127 = n mod 128"
proof -
  have "(127::nat) = mask 7" by (simp add: mask_eq_exp_minus_1)
  then have "n AND 127 = take_bit 7 n" by (simp only: take_bit_eq_mask)
  then show ?thesis by (simp add: take_bit_eq_mod)
qed

lemma and_127_int: "(n::int) AND 127 = n mod 128"
proof -
  have "(127::int) = mask 7" by (simp add: mask_eq_exp_minus_1)
  then have "n AND 127 = take_bit 7 n" by (simp only: take_bit_eq_mask)
  then show ?thesis by (simp add: take_bit_eq_mod)
qed

lemma take_bit_and_push_bit_nat: "take_bit n (a::nat) AND push_bit n c = 0"
  by (rule bit_eqI) (auto simp: bit_simps)

lemma take_bit_and_push_bit_int: "take_bit n (a::int) AND push_bit n c = 0"
  by (rule bit_eqI) (auto simp: bit_simps)

lemma or_128_nat:
  assumes "(b::nat) < 128"
  shows "b OR 128 = b + 128"
proof -
  have "take_bit 7 b AND push_bit 7 (1::nat) = 0"
    by (rule take_bit_and_push_bit_nat)
  moreover have "take_bit 7 b = b" using assms by (simp add: take_bit_nat_eq_self)
  ultimately have "b AND 128 = 0" by simp
  then show ?thesis by (simp add: disjunctive_add_eq_or)
qed

lemma or_128_int:
  assumes "0 \<le> (b::int)" "b < 128"
  shows "b OR 128 = b + 128"
proof -
  have "take_bit 7 b AND push_bit 7 (1::int) = 0"
    by (rule take_bit_and_push_bit_int)
  moreover have "take_bit 7 b = b" using assms by (simp add: take_bit_int_eq_self)
  ultimately have "b AND 128 = 0" by simp
  then show ?thesis by (simp add: disjunctive_add_eq_or)
qed

lemma and_64_int:
  assumes "0 \<le> (b::int)" "b < 128"
  shows "(b AND 64 = 0) = (b < 64)"
proof -
  have "(b AND 2 ^ 6 = 0) = (\<not> bit b 6)" by (rule and_exp_eq_0_iff_not_bit)
  moreover have "bit b 6 = (64 \<le> b)"
  proof (cases "b < 64")
    case True
    with assms have "b div 64 = 0" by simp
    with True show ?thesis by (simp add: bit_iff_odd)
  next
    case False
    with assms have "b div 64 = 1" by simp
    with False show ?thesis by (simp add: bit_iff_odd)
  qed
  ultimately show ?thesis by auto
qed

lemma and_64_nat:
  assumes "(b::nat) < 128"
  shows "(b AND 64 = 0) = (b < 64)"
proof -
  have "(b AND 2 ^ 6 = 0) = (\<not> bit b 6)" by (rule and_exp_eq_0_iff_not_bit)
  moreover have "bit b 6 = (64 \<le> b)"
  proof (cases "b < 64")
    case True
    then have "b div 64 = 0" by simp
    with True show ?thesis by (simp add: bit_iff_odd)
  next
    case False
    with assms have "b div 64 = 1" by simp
    with False show ?thesis by (simp add: bit_iff_odd)
  qed
  ultimately show ?thesis by auto
qed

lemma drop_bit_7_nat: "drop_bit 7 (n::nat) = n div 128"
  by (simp add: drop_bit_eq_div)

lemma drop_bit_7_int: "drop_bit 7 (n::int) = n div 128"
  by (simp add: drop_bit_eq_div)

lemma unsignedLoop_arith:
  "unsignedLoop n = (if n < 128 then [n] else (n mod 128 + 128) # unsignedLoop (n div 128))"
proof (cases "n < 128")
  case True
  then show ?thesis
    by (subst unsignedLoop.simps) (simp add: drop_bit_7_nat and_127_nat)
next
  case False
  then have "n div 128 \<noteq> 0" by simp
  then show ?thesis
    using False
    by (subst unsignedLoop.simps) (simp add: drop_bit_7_nat and_127_nat or_128_nat)
qed

lemma signedLoop_arith:
  "signedLoop n =
     (if (n div 128 = 0 \<and> n mod 128 < 64) \<or> (n div 128 = - 1 \<and> 64 \<le> n mod 128)
      then [n mod 128]
      else (n mod 128 + 128) # signedLoop (n div 128))"
proof -
  have b: "0 \<le> n mod 128" "n mod 128 < 128" by simp_all
  have c: "((n mod 128) AND 64 \<noteq> 0) = (64 \<le> n mod 128)"
    using and_64_int [OF b] by auto
  show ?thesis
    by (subst signedLoop.simps)
       (simp only: drop_bit_7_int and_127_int or_128_int [OF b] and_64_int [OF b] c not_less)
qed

lemma decodeStep_eq:
  "decodeStep (a, 7 * int k - 7) b = (a + 128 ^ k * int (unat b AND 127), 7 * int (Suc k) - 7)"
proof -
  have sh: "7 * int k - 7 + 7 = int (7 * k)" by simp
  have "(2::int) ^ (7 * k) = (2 ^ 7) ^ k" by (rule power_mult)
  then have p: "push_bit (7 * k) x = 128 ^ k * x" for x :: int
    by (simp add: push_bit_eq_mult)
  have "decodeStep (a, 7 * int k - 7) b
        = (a + push_bit (nat (int (7 * k))) (int (unat b AND 127)), int (7 * k))"
    by (simp only: decodeStep_def Let_def fst_conv snd_conv sh)
  also have "\<dots> = (a + 128 ^ k * int (unat b AND 127), 7 * int (Suc k) - 7)"
    by (simp only: nat_int p) simp
  finally show ?thesis .
qed

lemma decodeLoop_gen:
  "foldl decodeStep (a, 7 * int k - 7) bs
     = (a + 128 ^ k * int (lebValue bs), 7 * int (k + length bs) - 7)"
proof (induction bs arbitrary: a k)
  case Nil
  show ?case by simp
next
  case (Cons b bs)
  have v: "int (lebValue (b # bs)) = int (unat b AND 127) + 128 * int (lebValue bs)"
    by (simp only: lebValue.simps and_127_nat of_nat_add of_nat_mult of_nat_numeral)
  have "foldl decodeStep (a, 7 * int k - 7) (b # bs)
        = foldl decodeStep (a + 128 ^ k * int (unat b AND 127), 7 * int (Suc k) - 7) bs"
    by (simp only: foldl_Cons decodeStep_eq)
  also have "\<dots> = (a + 128 ^ k * int (unat b AND 127) + 128 ^ Suc k * int (lebValue bs),
                    7 * int (Suc k + length bs) - 7)"
    by (rule Cons.IH)
  also have "\<dots> = (a + 128 ^ k * int (lebValue (b # bs)), 7 * int (k + length (b # bs)) - 7)"
    by (simp only: v) (simp add: algebra_simps)
  finally show ?case .
qed

lemma decodeLoop_eq: "decodeLoop bs = (int (lebValue bs), 7 * int (length bs) - 7)"
  using decodeLoop_gen [of 0 0 bs] by (simp add: decodeLoop_def)

lemma lebValue_less: "lebValue bs < 128 ^ length bs"
proof (induction bs)
  case Nil
  show ?case by simp
next
  case (Cons b bs)
  have "unat b mod 128 < 128" by simp
  with Cons show ?case by simp
qed

section \<open>LEB128: the unsigned encoding is the shortest\<close>

lemma unat_of_nat_byte: "x < 256 \<Longrightarrow> unat (of_nat x :: byte) = x"
  by (simp add: unat_of_nat)

lemma unat_byte_less: "unat (b :: byte) < 256"
  using unsigned_less [of b, where 'a = nat] by simp

lemma unsignedLoop_small: "n < 128 \<Longrightarrow> unsignedLoop n = [n]"
  by (subst unsignedLoop_arith) simp

lemma unsignedLoop_big:
  "\<not> n < 128 \<Longrightarrow> unsignedLoop n = (n mod 128 + 128) # unsignedLoop (n div 128)"
  by (subst unsignedLoop_arith) simp

lemma unsignedLoop_nonempty: "unsignedLoop n \<noteq> []"
  by (subst unsignedLoop_arith) simp

lemma CT_single: "continuationTerminated [b] = (unat b < 128)"
  by (simp add: continuationTerminated_def)

lemma CT_Cons: "rest \<noteq> [] \<Longrightarrow>
  continuationTerminated (b # rest) = (128 \<le> unat b \<and> continuationTerminated rest)"
  by (auto simp: continuationTerminated_def)

lemma unat_cont_byte: "unat (of_nat (n mod 128 + 128) :: byte) = n mod 128 + 128"
proof -
  have "n mod 128 + 128 < 256" by simp
  then show ?thesis by (rule unat_of_nat_byte)
qed

lemma unsignedLoop_CT: "continuationTerminated (map of_nat (unsignedLoop n))"
proof (induction n rule: less_induct)
  case (less n)
  show ?case
  proof (cases "n < 128")
    case True
    then show ?thesis
      by (simp add: unsignedLoop_small CT_single unat_of_nat_byte)
  next
    case False
    then have "n div 128 < n" by simp
    then have ih: "continuationTerminated (map of_nat (unsignedLoop (n div 128)))"
      by (rule less.IH)
    have ne: "map of_nat (unsignedLoop (n div 128)) \<noteq> ([] :: byte list)"
      by (simp add: unsignedLoop_nonempty)
    have "continuationTerminated
            ((of_nat (n mod 128 + 128) :: byte) # map of_nat (unsignedLoop (n div 128)))"
      by (simp only: CT_Cons [OF ne] unat_cont_byte ih) simp
    then show ?thesis by (simp only: unsignedLoop_big [OF False] list.map)
  qed
qed

lemma unsignedLoop_value: "lebValue (map of_nat (unsignedLoop n)) = n"
proof (induction n rule: less_induct)
  case (less n)
  show ?case
  proof (cases "n < 128")
    case True
    then show ?thesis
      by (simp add: unsignedLoop_small unat_of_nat_byte)
  next
    case False
    then have "n div 128 < n" by simp
    then have ih: "lebValue (map of_nat (unsignedLoop (n div 128))) = n div 128"
      by (rule less.IH)
    have "lebValue ((of_nat (n mod 128 + 128) :: byte) # map of_nat (unsignedLoop (n div 128)))
          = (n mod 128 + 128) mod 128 + 128 * (n div 128)"
      by (simp only: lebValue.simps unat_cont_byte ih)
    also have "\<dots> = n" by simp
    finally show ?thesis by (simp only: unsignedLoop_big [OF False] list.map)
  qed
qed

lemma unsignedLoop_minimal:
  "continuationTerminated bs \<Longrightarrow> lebValue bs = n \<Longrightarrow>
     length (unsignedLoop n) \<le> length bs \<and>
     (length bs = length (unsignedLoop n) \<longrightarrow> bs = map of_nat (unsignedLoop n))"
proof (induction bs arbitrary: n)
  case Nil
  then show ?case by (simp add: continuationTerminated_def)
next
  case (Cons b rest)
  show ?case
  proof (cases "rest = []")
    case True
    with Cons.prems have b: "unat b < 128" by (simp add: CT_single)
    with Cons.prems True have n: "n = unat b" by simp
    have "unsignedLoop n = [n]" using b n by (simp add: unsignedLoop_small)
    then show ?thesis using True n by simp
  next
    case ne: False
    with Cons.prems have b: "128 \<le> unat b" and ct: "continuationTerminated rest"
      by (simp_all add: CT_Cons)
    define m where "m = lebValue rest"
    have m: "lebValue rest = m" by (simp add: m_def)
    have n: "n = unat b mod 128 + 128 * m"
      using Cons.prems(2) m by simp
    have nm: "n mod 128 = unat b mod 128" and nd: "n div 128 = m" by (simp_all add: n)
    note ih = Cons.IH [OF ct m]
    show ?thesis
    proof (cases "n < 128")
      case True
      then have "unsignedLoop n = [n]" by (rule unsignedLoop_small)
      with ne show ?thesis by (cases rest) simp_all
    next
      case False
      have e: "unsignedLoop n = (n mod 128 + 128) # unsignedLoop m"
        using unsignedLoop_big [OF False] by (simp only: nd)
      have "unat b mod 128 + 128 = unat b"
      proof -
        have "unat b = (unat b - 128) + 128" using b by simp
        moreover have "unat b - 128 < 128" using unat_byte_less [of b] by simp
        ultimately have "unat b mod 128 = unat b - 128"
          by (metis mod_add_self2 mod_less)
        with b show ?thesis by simp
      qed
      then have "(of_nat (n mod 128 + 128) :: byte) = b" by (simp only: nm) simp
      then have "map of_nat (unsignedLoop n) = b # map of_nat (unsignedLoop m)"
        by (simp only: e list.map)
      with ih show ?thesis by (simp add: e)
    qed
  qed
qed

section \<open>LEB128: the base-10 bridge\<close>

lemma b10_encode:
  "returned (encode b10 bytes cs True rp) = Some (toString (bytesToBigInt (rev bytes)), 0)"
  by (simp add: encode_def b10_def Let_def)

lemma digitChar_value: "d < 10 \<Longrightarrow> of_char (digitChar d) - 48 = (d::nat)"
  by (simp add: digitChar_def)

lemma BigInt_digits:
  "(\<And>d. d \<in> set ds \<Longrightarrow> d < 10) \<Longrightarrow>
     foldl (\<lambda>n ch. 10 * n + (of_char ch - 48)) a (map digitChar ds)
       = a * 10 ^ length ds + blockValue 10 ds"
proof (induction ds arbitrary: a)
  case Nil
  show ?case by simp
next
  case (Cons d ds)
  have d: "of_char (digitChar d) - 48 = d" using Cons.prems by (simp add: digitChar_value)
  have "foldl (\<lambda>n ch. 10 * n + (of_char ch - 48)) a (map digitChar (d # ds))
        = foldl (\<lambda>n ch. 10 * n + (of_char ch - 48)) (10 * a + d) (map digitChar ds)"
    by (simp add: d)
  also have "\<dots> = (10 * a + d) * 10 ^ length ds + blockValue 10 ds"
    using Cons.prems by (intro Cons.IH) simp
  finally show ?case by (simp add: algebra_simps)
qed

lemma BigInt_toString: "BigInt (toString n) = n"
proof -
  have "BigInt (toString n) = 0 * 10 ^ length (divLoop 10 n []) + blockValue 10 (divLoop 10 n [])"
    unfolding BigInt_def toString_def
    by (rule BigInt_digits) (rule divLoop_digits_less, simp_all)
  then show ?thesis by (simp add: blockValue_divLoop)
qed

section \<open>LEB128: signed round trip\<close>

lemma signedLoop_stop:
  "(n div 128 = 0 \<and> n mod 128 < 64) \<or> (n div 128 = - 1 \<and> 64 \<le> n mod 128)
     \<Longrightarrow> signedLoop n = [n mod 128]"
  by (subst signedLoop_arith) simp

lemma signedLoop_continue:
  "\<not> ((n div 128 = 0 \<and> n mod 128 < 64) \<or> (n div 128 = - 1 \<and> 64 \<le> n mod 128))
     \<Longrightarrow> signedLoop n = (n mod 128 + 128) # signedLoop (n div 128)"
  by (subst signedLoop_arith) simp

lemma signedLoop_nonempty: "signedLoop n \<noteq> []"
  by (subst signedLoop_arith) simp

lemma unat_of_int_byte: "0 \<le> x \<Longrightarrow> x < 256 \<Longrightarrow> unat (of_int x :: byte) = nat x"
proof -
  assume a: "0 \<le> x" "x < 256"
  then have "(of_int x :: byte) = of_nat (nat x)" by simp
  moreover have "nat x < 256" using a by simp
  ultimately show ?thesis by (simp only: unat_of_nat_byte)
qed

lemma and_64_byte: "(unat (b::byte) AND 64 \<noteq> 0) = (64 \<le> unat b mod 128)"
proof -
  have "(127::nat) AND 64 = 64" by simp
  then have "unat b AND 64 = (unat b AND 127) AND 64" by (simp add: and.assoc)
  also have "\<dots> = (unat b mod 128) AND 64" by (simp only: and_127_nat)
  finally have "unat b AND 64 = (unat b mod 128) AND 64" .
  moreover have "((unat b mod 128) AND 64 = 0) = (unat b mod 128 < 64)"
    by (rule and_64_nat) simp
  ultimately show ?thesis by auto
qed

lemma or_minus_exp:
  assumes "v < 128 ^ k"
  shows "int v OR (- push_bit (7 * k) 1) = int v - 128 ^ k"
proof -
  have e: "(2::int) ^ (7 * k) = 128 ^ k"
    using power_mult [of "2::int" 7 k] by simp
  have "int v < 2 ^ (7 * k)" using assms e by (metis of_nat_less_iff of_nat_power of_nat_numeral)
  then have t: "take_bit (7 * k) (int v) = int v" by (simp add: take_bit_int_eq_self)
  have "take_bit (7 * k) (int v) AND (- push_bit (7 * k) 1) = 0"
    by (rule bit_eqI) (auto simp: bit_simps push_bit_eq_mult minus_exp_eq_not_mask)
  then have "int v AND (- push_bit (7 * k) 1) = 0" by (simp only: t)
  then have "int v + (- push_bit (7 * k) 1) = int v OR (- push_bit (7 * k) 1)"
    by (rule disjunctive_add_eq_or)
  then show ?thesis by (simp add: push_bit_eq_mult e)
qed

text \<open>The signed value read by decode, in arithmetic form.\<close>

lemma LEB128_decode_n_signed:
  assumes "E \<noteq> []"
  shows "LEB128_decode_n True E
         = int (lebValue E) - (if 64 \<le> unat (last E) mod 128 then 128 ^ length E else 0)"
proof (cases "length E = 1 \<and> hd E = 0")
  case True
  then obtain x where "E = [x]" by (cases E) auto
  with True have "E = [0]" by simp
  then show ?thesis by (simp add: LEB128_decode_n_def)
next
  case False
  have sh: "nat (7 * int (length E) - 7 + 7) = 7 * length E" by simp
  show ?thesis
    using False assms
    by (simp only: LEB128_decode_n_def decodeLoop_eq Let_def prod.case and_64_byte sh
          or_minus_exp [OF lebValue_less] simp_thms if_True if_False)
       simp
qed

lemma signedLoop_roundtrip_arith:
  "int (lebValue (map of_int (signedLoop n)))
     - (if 64 \<le> unat (last (map of_int (signedLoop n)) :: byte) mod 128
        then 128 ^ length (signedLoop n) else 0) = n"
proof (induction n rule: signedLoop.induct)
  case (1 n)
  define b where "b = n mod 128"
  define q where "q = n div 128"
  have b: "0 \<le> b" "b < 128" by (simp_all add: b_def)
  have n: "n = 128 * q + b" by (simp add: b_def q_def)
  show ?case
  proof (cases "(q = 0 \<and> b < 64) \<or> (q = - 1 \<and> 64 \<le> b)")
    case True
    then have e: "signedLoop n = [b]"
      unfolding b_def q_def by (rule signedLoop_stop)
    have u: "unat (of_int b :: byte) = nat b" using b by (intro unat_of_int_byte) simp_all
    have m: "nat b mod 128 = nat b" using b by simp
    have c: "(64 \<le> nat b) = (64 \<le> b)" using b by linarith
    have lv: "int (lebValue (map of_int [b] :: byte list)) = b"
      using b by (simp add: u m)
    have lm: "unat (last (map of_int [b]) :: byte) mod 128 = nat b"
      by (simp add: u m)
    show ?thesis
      unfolding e lv lm c using True b by (auto simp: n)
  next
    case False
    then have e: "signedLoop n = (b + 128) # signedLoop q"
      unfolding b_def q_def by (rule signedLoop_continue)
    have stopc: "\<not> ((drop_bit 7 n = 0 \<and> (n AND 127) AND 64 = 0) \<or>
                     (drop_bit 7 n = - 1 \<and> (n AND 127) AND 64 \<noteq> 0))"
      using False and_64_int [of "n mod 128"]
      by (simp add: drop_bit_7_int and_127_int b_def q_def not_less)
    have ih: "int (lebValue (map of_int (signedLoop q)))
              - (if 64 \<le> unat (last (map of_int (signedLoop q)) :: byte) mod 128
                 then 128 ^ length (signedLoop q) else 0) = q"
      using "1.IH" [OF stopc] by (simp only: drop_bit_7_int q_def)
    have u: "unat (of_int (b + 128) :: byte) = nat (b + 128)"
      using b by (intro unat_of_int_byte) simp_all
    have m: "nat (b + 128) mod 128 = nat b"
    proof -
      have "nat (b + 128) = nat b + 128" using b by simp
      moreover have "nat b < 128" using b by simp
      ultimately show ?thesis by simp
    qed
    have ne: "map of_int (signedLoop q) \<noteq> ([] :: byte list)"
      by (simp add: signedLoop_nonempty)
    have l: "last (map of_int ((b + 128) # signedLoop q) :: byte list)
             = last (map of_int (signedLoop q))"
      using ne by simp
    have v: "int (lebValue (map of_int ((b + 128) # signedLoop q)))
             = b + 128 * int (lebValue (map of_int (signedLoop q)))"
      using b by (simp only: list.map lebValue.simps u m)
    show ?thesis
      unfolding e l v using ih by (auto simp: n split: if_splits)
  qed
qed

lemma signedLoop_bytes: "map of_int (signedLoop n) \<noteq> ([] :: byte list)"
  by (simp add: signedLoop_nonempty)

lemma signed_roundtrip_n: "LEB128_decode_n True (map of_int (signedLoop n)) = n"
  using signedLoop_roundtrip_arith [of n]
  by (simp only: LEB128_decode_n_signed [OF signedLoop_bytes] length_map)

lemma LEB128_encode_unsigned:
  "LEB128_encode False False inputBytes False
     = Inr (Bytes (map of_nat (unsignedLoop (bytesToBigInt (rev inputBytes)))))"
  by (simp add: LEB128_encode_def b10_encode BigInt_toString Let_def comp_def)

lemma LEB128_encode_signed:
  "LEB128_encode True False inputBytes negative
     = Inr (Bytes (map of_int (signedLoop
         (if negative then - int (bytesToBigInt (rev inputBytes))
          else int (bytesToBigInt (rev inputBytes))))))"
  by (simp add: LEB128_encode_def b10_encode BigInt_toString Let_def)

lemma hexlify_returns: "returned (encode hexlify bytes ''0123456789abcdef'' False None) \<noteq> None"
proof -
  have "returned (encode hexlify bytes ''0123456789abcdef'' False None)
        = Some (map ((!) ''0123456789abcdef'') (digitsOfBlocks hexlify (bytes @ replicate 0 0)), 0)"
    by (rule encode_returned) (simp_all add: hexlify_def)
  then show ?thesis by simp
qed

lemma LEB128_encode_cases:
  obtains "negative \<and> \<not> signedMode"
      and "LEB128_encode signedMode hex inputBytes negative = Inl NegativeUnsigned"
  | out where "\<not> (negative \<and> \<not> signedMode)"
      and "LEB128_encode signedMode hex inputBytes negative = Inr out"
proof (cases "negative \<and> \<not> signedMode")
  case True
  then have "LEB128_encode signedMode hex inputBytes negative = Inl NegativeUnsigned"
    by (simp add: LEB128_encode_def b10_encode Let_def)
  with True show ?thesis by (rule that(1))
next
  case False
  define n where "n = int (BigInt (toString (bytesToBigInt (rev inputBytes))))"
  define U :: "byte list" where
    "U = map of_int (if signedMode then signedLoop (if negative then - n else n)
                     else map int (unsignedLoop (nat (if negative then - n else n))))"
  obtain str zp where h: "returned (encode hexlify U ''0123456789abcdef'' False None) = Some (str, zp)"
    using hexlify_returns [of U] by (cases "returned (encode hexlify U ''0123456789abcdef'' False None)") auto
  have "LEB128_encode signedMode hex inputBytes negative
        = (if hex then
             (case returned (encode hexlify U ''0123456789abcdef'' False None) of
                None \<Rightarrow> Inl NoBase10 | Some (str, zp) \<Rightarrow> Inr (HexString str))
           else Inr (Bytes U))"
    using False by (simp add: LEB128_encode_def b10_encode Let_def U_def n_def)
  then have "LEB128_encode signedMode hex inputBytes negative
        = Inr (if hex then HexString str else Bytes U)"
    by (simp add: h)
  with False show ?thesis by (rule that(2))
qed

lemma LEB128_encode_error:
  "(LEB128_encode signedMode hex inputBytes negative = Inl NegativeUnsigned)
     = (negative \<and> \<not> signedMode)"
  by (rule LEB128_encode_cases [of negative signedMode hex inputBytes]) simp_all

lemma LEB128_encode_no_other_error:
  "LEB128_encode signedMode hex inputBytes negative \<noteq> Inl NoBase10"
  by (rule LEB128_encode_cases [of negative signedMode hex inputBytes]) simp_all

lemma divLoop_nonempty: "divLoop r n [] \<noteq> []"
proof (cases "r \<le> n \<and> 2 \<le> r")
  case True
  then show ?thesis by (simp add: divLoop_step)
next
  case False
  then show ?thesis by (simp add: divLoop_stop)
qed

lemma divLoop_hd_nonzero: "2 \<le> r \<Longrightarrow> r \<le> n \<Longrightarrow> hd (divLoop r n []) \<noteq> 0"
proof (induction n rule: less_induct)
  case (less n)
  have lt: "n div r < n" using less.prems by simp
  have e: "divLoop r n [] = divLoop r (n div r) [] @ [n mod r]"
    using less.prems by (simp add: divLoop_step)
  have hd: "hd (divLoop r n []) = hd (divLoop r (n div r) [])"
    unfolding e using divLoop_nonempty [of r "n div r"] by simp
  show ?case
  proof (cases "r \<le> n div r")
    case True
    then show ?thesis using less.IH [OF lt less.prems(1)] hd by simp
  next
    case False
    then have "divLoop r (n div r) [] = [n div r]" by (simp add: divLoop_small)
    moreover have "n div r \<noteq> 0" using less.prems by (simp add: div_greater_zero_iff)
    ultimately show ?thesis using hd by simp
  qed
qed

lemma digitChar_nth: "d < 10 \<Longrightarrow> digitChar d = ''0123456789'' ! d"
proof -
  assume "d < 10"
  then have "d = 0 \<or> d = 1 \<or> d = 2 \<or> d = 3 \<or> d = 4 \<or> d = 5 \<or> d = 6 \<or> d = 7 \<or> d = 8 \<or> d = 9"
    by arith
  moreover have "digitChar 0 = ''0123456789'' ! 0" "digitChar 1 = ''0123456789'' ! 1"
    "digitChar 2 = ''0123456789'' ! 2" "digitChar 3 = ''0123456789'' ! 3"
    "digitChar 4 = ''0123456789'' ! 4" "digitChar 5 = ''0123456789'' ! 5"
    "digitChar 6 = ''0123456789'' ! 6" "digitChar 7 = ''0123456789'' ! 7"
    "digitChar 8 = ''0123456789'' ! 8" "digitChar 9 = ''0123456789'' ! 9"
    by code_simp+
  ultimately show ?thesis by (elim disjE) (simp_all only:)
qed

lemma charIndices_toString: "charIndices ''0123456789'' (toString n) = divLoop 10 n []"
proof -
  have lt: "\<And>d. d \<in> set (divLoop 10 n []) \<Longrightarrow> d < 10"
    by (rule divLoop_digits_less) simp_all
  have len: "length ''0123456789'' = 10" by simp
  have lt': "\<And>d. d \<in> set (divLoop 10 n []) \<Longrightarrow> d < length ''0123456789''"
    using lt by (simp only: len)
  have "toString n = map ((!) ''0123456789'') (divLoop 10 n [])"
    unfolding toString_def using lt by (intro map_cong refl digitChar_nth)
  moreover have "charIndices ''0123456789'' (map ((!) ''0123456789'') (divLoop 10 n []))
        = divLoop 10 n []"
    by (rule charIndices_map_nth [OF _ lt']) simp
  ultimately show ?thesis by (simp only:)
qed

lemma unat_of_nat_bytes:
  "(\<And>d. d \<in> set ds \<Longrightarrow> d < 256) \<Longrightarrow> map unat (map of_nat ds :: byte list) = ds"
  by (induction ds) (simp_all add: unat_of_nat_byte)

lemma b10_decode_LE:
  "decode b10 (toString n) ''0123456789'' True = Some (map of_nat (rev (divLoop 256 n [])))"
proof -
  define ds where "ds = divLoop 10 n []"
  define D where "D = divLoop 256 n []"
  have ne: "ds \<noteq> []" by (simp add: ds_def divLoop_nonempty)
  have ch: "chunks (length ds) ds = [ds]"
    using ne by (subst chunks.simps) (simp add: chunks_Nil)
  have bv: "blockValue 10 ds = n" by (simp add: ds_def blockValue_divLoop)
  have blk: "decodeBlock b10 ds = D"
    by (simp add: decodeBlock_def b10_def padFront_def bv D_def)
  have Dne: "D \<noteq> []" by (simp add: D_def divLoop_nonempty)
  have st: "1 < length D \<Longrightarrow> stripZeros D = Some D"
  proof -
    assume l: "1 < length D"
    have "256 \<le> n"
    proof (rule ccontr)
      assume "\<not> 256 \<le> n"
      then have "D = [n]" by (simp add: D_def divLoop_small)
      with l show False by simp
    qed
    then have "hd D \<noteq> 0" unfolding D_def by (intro divLoop_hd_nonzero) simp_all
    moreover obtain x xs where "D = x # xs" using Dne by (cases D) auto
    ultimately show ?thesis using stripZeros_zeros [of x 0 xs] by simp
  qed
  have one: "\<not> 1 < length D \<Longrightarrow> rev D = D"
    using Dne by (cases D) auto
  have "decodeDigits b10 ds True = Some (map of_nat (rev D))"
  proof (cases "1 < length D")
    case True
    then show ?thesis
      using st Dne by (simp add: decodeDigits_def Let_def b10_def ch blk [unfolded b10_def] rev_map)
  next
    case False
    then show ?thesis
      using one by (simp add: decodeDigits_def Let_def b10_def ch blk [unfolded b10_def])
  qed
  then show ?thesis
    by (simp only: decode_eq_decodeDigits charIndices_toString ds_def D_def)
qed

lemma divLoop_256_bytes: "bytesToBigInt (rev (map of_nat (rev (divLoop 256 n [])))) = n"
proof -
  have lt: "\<And>d. d \<in> set (divLoop 256 n []) \<Longrightarrow> d < 256"
    by (rule divLoop_digits_less) simp_all
  have "map unat (map of_nat (divLoop 256 n []) :: byte list) = divLoop 256 n []"
    by (rule unat_of_nat_bytes [OF lt])
  then have "bytesToBigInt (map of_nat (divLoop 256 n [])) = blockValue 256 (divLoop 256 n [])"
    by (simp only: bytesToBigInt_blockValue)
  then show ?thesis by (simp add: rev_map blockValue_divLoop)
qed

section \<open>LEB128: the claims\<close>

lemma LEB128_decode_of_signedLoop:
  "LEB128_decode True (map of_int (signedLoop v))
     = Some (if v = 0 then [0] else map of_nat (rev (divLoop 256 (nat \<bar>v\<bar>) [])), v < 0)"
proof (cases "length (map of_int (signedLoop v) :: byte list) = 1 \<and> hd (map of_int (signedLoop v) :: byte list) = 0")
  case True
  then have "LEB128_decode_n True (map of_int (signedLoop v)) = 0"
    by (simp add: LEB128_decode_n_def)
  then have "v = 0" by (simp only: signed_roundtrip_n)
  with True show ?thesis by (simp add: LEB128_decode_def)
next
  case False
  have z: "map of_nat (rev (divLoop 256 0 [])) = [0 :: byte]" by (simp add: divLoop_small)
  show ?thesis
    using False
    by (simp only: LEB128_decode_def signed_roundtrip_n Let_def b10_decode_LE if_False)
       (auto simp: z)
qed

lemma unsigned_examples:
  "unsignedLoop 0 = [0]" "unsignedLoop 127 = [127]" "unsignedLoop 128 = [128, 1]"
  "unsignedLoop 300 = [172, 2]"
  by (simp_all add: unsignedLoop_small unsignedLoop_big)

lemma signed_example: "signedLoop (- 129) = [255, 126]"
proof -
  have "signedLoop (- 129) = (- 129 mod 128 + 128) # signedLoop (- 129 div 128)"
    by (rule signedLoop_continue) simp
  moreover have "signedLoop (- 2) = [- 2 mod 128]"
    by (rule signedLoop_stop) simp
  ultimately show ?thesis by simp
qed

text \<open>
  Claim C5. \<open>inputBytes\<close> are the little-endian bytes of the magnitude, as the input
  handler delivers them, so the value encoded is \<open>bytesToBigInt (rev inputBytes)\<close>. In
  unsigned mode the encoding is continuation-terminated, the decode recurrence reads the
  value back from it, and every continuation-terminated sequence with that value is at
  least as long and, at equal length, is the encoding itself. The inputs 0, 127, 128 and
  300 arrive as the 16-bit little-endian arrays \<open>[0, 0]\<close>, \<open>[127, 0]\<close>, \<open>[128, 0]\<close> and
  \<open>[44, 1]\<close>.
\<close>

theorem LEB128_unsigned_shortest:
  "(\<exists>enc. LEB128_encode False False inputBytes False = Inr (Bytes enc) \<and>
       continuationTerminated enc \<and>
       fst (decodeLoop enc) = int (bytesToBigInt (rev inputBytes)) \<and>
       (\<forall>bs. continuationTerminated bs \<and> fst (decodeLoop bs) = int (bytesToBigInt (rev inputBytes))
           \<longrightarrow> length enc \<le> length bs \<and> (length bs = length enc \<longrightarrow> bs = enc))) \<and>
   LEB128_encode False False [0, 0] False = Inr (Bytes [0x00]) \<and>
   LEB128_encode False False [127, 0] False = Inr (Bytes [0x7F]) \<and>
   LEB128_encode False False [128, 0] False = Inr (Bytes [0x80, 0x01]) \<and>
   LEB128_encode False False [44, 1] False = Inr (Bytes [0xAC, 0x02])"
proof (intro conjI)
  show "\<exists>enc. LEB128_encode False False inputBytes False = Inr (Bytes enc) \<and>
       continuationTerminated enc \<and>
       fst (decodeLoop enc) = int (bytesToBigInt (rev inputBytes)) \<and>
       (\<forall>bs. continuationTerminated bs \<and> fst (decodeLoop bs) = int (bytesToBigInt (rev inputBytes))
           \<longrightarrow> length enc \<le> length bs \<and> (length bs = length enc \<longrightarrow> bs = enc))"
  proof (rule exI [of _ "map of_nat (unsignedLoop (bytesToBigInt (rev inputBytes)))"], intro conjI allI impI)
    show "LEB128_encode False False inputBytes False
          = Inr (Bytes (map of_nat (unsignedLoop (bytesToBigInt (rev inputBytes)))))"
      by (rule LEB128_encode_unsigned)
    show "continuationTerminated (map of_nat (unsignedLoop (bytesToBigInt (rev inputBytes))))"
      by (rule unsignedLoop_CT)
    show "fst (decodeLoop (map of_nat (unsignedLoop (bytesToBigInt (rev inputBytes)))))
          = int (bytesToBigInt (rev inputBytes))"
      by (simp add: decodeLoop_eq unsignedLoop_value)
  next
    fix bs
    assume "continuationTerminated bs \<and> fst (decodeLoop bs) = int (bytesToBigInt (rev inputBytes))"
    then have ct: "continuationTerminated bs" and v: "lebValue bs = bytesToBigInt (rev inputBytes)"
      by (simp_all add: decodeLoop_eq)
    from unsignedLoop_minimal [OF ct v]
    show "length (map of_nat (unsignedLoop (bytesToBigInt (rev inputBytes))) :: byte list) \<le> length bs"
      by simp
    assume "length bs = length (map of_nat (unsignedLoop (bytesToBigInt (rev inputBytes))) :: byte list)"
    with unsignedLoop_minimal [OF ct v]
    show "bs = map of_nat (unsignedLoop (bytesToBigInt (rev inputBytes)))"
      by simp
  qed
  show "LEB128_encode False False [0, 0] False = Inr (Bytes [0x00])"
    by (simp add: LEB128_encode_unsigned bytesToBigInt_def push_bit_eq_mult unsigned_examples)
  show "LEB128_encode False False [127, 0] False = Inr (Bytes [0x7F])"
    by (simp add: LEB128_encode_unsigned bytesToBigInt_def push_bit_eq_mult unsigned_examples)
  show "LEB128_encode False False [128, 0] False = Inr (Bytes [0x80, 0x01])"
    by (simp add: LEB128_encode_unsigned bytesToBigInt_def push_bit_eq_mult unsigned_examples)
  show "LEB128_encode False False [44, 1] False = Inr (Bytes [0xAC, 0x02])"
    by (simp add: LEB128_encode_unsigned bytesToBigInt_def push_bit_eq_mult unsigned_examples)
qed

theorem LEB128_unsigned_shortest_witness:
  "continuationTerminated [0xAC, 0x82, 0x00] \<and>
   fst (decodeLoop [0xAC, 0x82, 0x00]) = int (bytesToBigInt (rev [44, 1])) \<and>
   (\<exists>enc. LEB128_encode False False [44, 1] False = Inr (Bytes enc) \<and>
          length enc \<le> length [0xAC, 0x82, 0x00 :: byte])"
proof -
  have a: "continuationTerminated [0xAC, 0x82, 0x00]"
    by (simp add: continuationTerminated_def)
  have b: "fst (decodeLoop [0xAC, 0x82, 0x00]) = int (bytesToBigInt (rev [44, 1]))"
    by (simp add: decodeLoop_eq bytesToBigInt_def push_bit_eq_mult)
  from LEB128_unsigned_shortest [of "[44, 1]"] a b show ?thesis by blast
qed

text \<open>
  Claim C6. In signed mode, for every magnitude and sign: the integer that decode
  computes from the encoding is the value encoded, and decode hands its sign and the
  little-endian bytes of its magnitude to the output handler. The input \<open>-129\<close> arrives as
  \<open>[129, 0]\<close> with \<open>negative = true\<close>.
\<close>

theorem LEB128_signed_roundtrip:
  "(\<exists>enc out. LEB128_encode True False inputBytes negative = Inr (Bytes enc) \<and>
       LEB128_decode_n True enc
         = (if negative then - int (bytesToBigInt (rev inputBytes))
            else int (bytesToBigInt (rev inputBytes))) \<and>
       LEB128_decode True enc = Some (out, LEB128_decode_n True enc < 0) \<and>
       int (bytesToBigInt (rev out)) = \<bar>LEB128_decode_n True enc\<bar>) \<and>
   LEB128_encode True False [129, 0] True = Inr (Bytes [0xFF, 0x7E]) \<and>
   LEB128_decode_n True [0xFF, 0x7E] = - 129"
proof (intro conjI)
  define v where "v = (if negative then - int (bytesToBigInt (rev inputBytes))
            else int (bytesToBigInt (rev inputBytes)))"
  define out :: "byte list" where
    "out = (if v = 0 then [0] else map of_nat (rev (divLoop 256 (nat \<bar>v\<bar>) [])))"
  have o: "int (bytesToBigInt (rev out)) = \<bar>v\<bar>"
  proof (cases "v = 0")
    case True
    then show ?thesis by (simp add: out_def bytesToBigInt_def)
  next
    case False
    then have "out = map of_nat (rev (divLoop 256 (nat \<bar>v\<bar>) []))" by (simp add: out_def)
    then show ?thesis by (simp only: divLoop_256_bytes)
  qed
  show "\<exists>enc out. LEB128_encode True False inputBytes negative = Inr (Bytes enc) \<and>
       LEB128_decode_n True enc
         = (if negative then - int (bytesToBigInt (rev inputBytes))
            else int (bytesToBigInt (rev inputBytes))) \<and>
       LEB128_decode True enc = Some (out, LEB128_decode_n True enc < 0) \<and>
       int (bytesToBigInt (rev out)) = \<bar>LEB128_decode_n True enc\<bar>"
    unfolding v_def [symmetric]
    by (rule exI [of _ "map of_int (signedLoop v)"], rule exI [of _ out])
       (simp only: LEB128_encode_signed v_def [symmetric] signed_roundtrip_n
          LEB128_decode_of_signedLoop out_def [symmetric] o simp_thms)
  have e: "LEB128_encode True False [129, 0] True = Inr (Bytes (map of_int (signedLoop (- 129))))"
    by (simp add: LEB128_encode_signed bytesToBigInt_def push_bit_eq_mult)
  then show "LEB128_encode True False [129, 0] True = Inr (Bytes [0xFF, 0x7E])"
    by (simp add: signed_example)
  have "LEB128_decode_n True (map of_int (signedLoop (- 129))) = - 129"
    by (rule signed_roundtrip_n)
  then show "LEB128_decode_n True [0xFF, 0x7E] = - 129"
    by (simp add: signed_example)
qed

theorem LEB128_signed_roundtrip_witness:
  "\<exists>enc. LEB128_encode True False [129, 0] True = Inr (Bytes enc) \<and>
         LEB128_decode_n True enc = - 129"
proof -
  have "int (bytesToBigInt (rev [129, 0])) = 129"
    by (simp add: bytesToBigInt_def push_bit_eq_mult)
  with LEB128_signed_roundtrip [of "[129, 0]" True] show ?thesis by auto
qed

text \<open>
  Claim C7. \<open>LEB128.encode\<close> fails with the error for negative values in unsigned mode
  exactly when the input is negative and signed mode is off; the result is then the error
  and no byte sequence. No other failure of the encoder body occurs.
\<close>

theorem LEB128_negative_unsigned_error:
  "(LEB128_encode signedMode hex inputBytes negative = Inl NegativeUnsigned)
     = (negative \<and> \<not> signedMode) \<and>
   LEB128_encode signedMode hex inputBytes negative \<noteq> Inl NoBase10"
  by (simp only: LEB128_encode_error LEB128_encode_no_other_error simp_thms)

section \<open>BasePhi: the encoder returns\<close>

text \<open>
  The three loops of \<open>encode\<close> end for every magnitude \<open>n \<ge> 0\<close>: the search for the
  highest power adds at least one in every round; the inner loop of \<open>reduceN\<close> lowers
  the sum \<open>cur + prev\<close> by more than \<open>n\<close> in every round; and between two calls of
  \<open>reduceN\<close> either that sum falls by at least the threshold of \<open>approxNull\<close> or \<open>n\<close>
  falls by \<open>cur\<close>.
\<close>

lemma not_approxNull_ge:
  assumes "0 \<le> x" and "\<not> approxNull x"
  shows "1 / (2 * 10 ^ 50) \<le> x"
proof (rule ccontr)
  assume "\<not> 1 / (2 * 10 ^ 50) \<le> x"
  then have lt: "x < 1 / (2 * 10 ^ 50)" by simp
  then have "x * 10 ^ 50 < 1 / 2" by (simp add: field_simps)
  then have "\<bar>x\<bar> * 10 ^ 50 + 1 / 2 < 1" and "0 \<le> \<bar>x\<bar> * 10 ^ 50 + 1 / 2"
    using assms(1) by simp_all
  then have "\<lfloor>\<bar>x\<bar> * 10 ^ 50 + 1 / 2\<rfloor> = 0" by (simp add: floor_eq_iff)
  then have "approxNull x" by (simp add: approxNull_def bigRound_def)
  with assms(2) show False by simp
qed

lemma findExp_returns:
  "1 \<le> last' \<Longrightarrow> 1 \<le> cur \<Longrightarrow>
     \<exists>l c e. findExp n last' cur exp' = Some (l, c, e) \<and> 1 \<le> l \<and> 1 \<le> c"
proof (induction "nat \<lceil>n - cur\<rceil>" arbitrary: last' cur exp' rule: less_induct)
  case less
  show ?case
  proof (cases "cur < n")
    case False
    then have "findExp n last' cur exp' = Some (last', cur, exp')"
      by (subst findExp.simps) simp
    with less.prems show ?thesis by simp
  next
    case True
    have e: "findExp n last' cur exp' = findExp n cur (last' + cur) (exp' + 1)"
      using True by (subst findExp.simps) (simp add: nextPhiExp_def)
    have "n - (last' + cur) \<le> n - cur - 1" using less.prems by simp
    then have "\<lceil>n - (last' + cur)\<rceil> \<le> \<lceil>n - cur - 1\<rceil>" by (rule ceiling_mono)
    moreover have "0 < \<lceil>n - cur\<rceil>" using True by simp
    ultimately have m: "nat \<lceil>n - (last' + cur)\<rceil> < nat \<lceil>n - cur\<rceil>" by simp
    have "1 \<le> last' + cur" using less.prems by simp
    from less.hyps [OF m less.prems(2) this, of "exp' + 1"] show ?thesis by (simp only: e)
  qed
qed

lemma descend_returns:
  "0 < n \<Longrightarrow> 0 < cur \<Longrightarrow> 0 < prev \<Longrightarrow>
     descend n cur prev exp' = Some Underflow \<or>
     (\<exists>c p e. descend n cur prev exp' = Some (Fits c p e) \<and> 0 < c \<and> 0 < p \<and> c \<le> n \<and>
        c + p \<le> cur + prev \<and> (n < cur \<longrightarrow> c + p + n \<le> cur + prev))"
proof (induction "nat \<lfloor>(cur + prev) / n\<rfloor>" arbitrary: cur prev exp' rule: less_induct)
  case less
  show ?case
  proof (cases "n < cur")
    case False
    then have "descend n cur prev exp' = Some (Fits cur prev exp')"
      by (subst descend.simps) simp
    with less.prems False show ?thesis by simp
  next
    case True
    show ?thesis
    proof (cases "prev - cur \<le> 0")
      case u: True
      have "descend n cur prev exp' = Some Underflow"
        using True u by (subst descend.simps) (simp add: prevPhiExp_def)
      then show ?thesis by simp
    next
      case u: False
      have e: "descend n cur prev exp' = descend n (prev - cur) cur (exp' - 1)"
        using True u by (subst descend.simps) (simp add: prevPhiExp_def)
      have "prev / n + 1 \<le> (cur + prev) / n"
        using True less.prems(1) by (simp add: field_simps)
      then have "\<lfloor>prev / n + 1\<rfloor> \<le> \<lfloor>(cur + prev) / n\<rfloor>" by (rule floor_mono)
      then have f: "\<lfloor>prev / n\<rfloor> + 1 \<le> \<lfloor>(cur + prev) / n\<rfloor>" by simp
      have z: "0 \<le> \<lfloor>prev / n\<rfloor>" using less.prems by simp
      have "nat \<lfloor>prev / n\<rfloor> < nat \<lfloor>(cur + prev) / n\<rfloor>" using f z by linarith
      then have m: "nat \<lfloor>(prev - cur + cur) / n\<rfloor> < nat \<lfloor>(cur + prev) / n\<rfloor>" by simp
      have p: "0 < prev - cur" using u by simp
      from less.hyps [OF m less.prems(1) p less.prems(2), of "exp' - 1"]
      show ?thesis
      proof
        assume "descend n (prev - cur) cur (exp' - 1) = Some Underflow"
        then show ?thesis by (simp only: e) simp
      next
        assume "\<exists>c p e. descend n (prev - cur) cur (exp' - 1) = Some (Fits c p e) \<and> 0 < c \<and>
          0 < p \<and> c \<le> n \<and> c + p \<le> prev - cur + cur \<and>
          (n < prev - cur \<longrightarrow> c + p + n \<le> prev - cur + cur)"
        then obtain c p e' where d: "descend n (prev - cur) cur (exp' - 1) = Some (Fits c p e')"
          and b: "0 < c" "0 < p" "c \<le> n" "c + p \<le> prev - cur + cur" by blast
        from b(4) True have "c + p + n \<le> cur + prev" by simp
        moreover from this less.prems(1) have "c + p \<le> cur + prev" by simp
        ultimately show ?thesis using d b by (simp only: e) simp
      qed
    qed
  qed
qed

lemma remaining_storeExp: "remaining (storeExp e c st) = remaining st - c"
  by (simp add: storeExp_def)

lemma reduceN_returns_aux:
  assumes "nat \<lfloor>(cur + prev) * (2 * 10 ^ 50)\<rfloor> = a" and "nat \<lfloor>remaining st / cur\<rfloor> = b"
    and "0 \<le> remaining st" and "0 < cur" and "0 < prev"
  shows "\<exists>st'. reduceN cur prev exp' st = Some st'"
  using assms
proof (induction a arbitrary: b cur prev exp' st rule: less_induct)
  case (less a)
  note outer = less.IH
  show ?case using less.prems
  proof (induction b arbitrary: cur prev exp' st rule: less_induct)
    case (less b)
    define n where "n = remaining st"
    note pr = less.prems [folded n_def]
    show ?case
    proof (cases "approxNull n")
      case True
      then have "reduceN cur prev exp' st = Some st"
        by (subst reduceN.simps) (simp add: n_def)
      then show ?thesis by simp
    next
      case False
      from not_approxNull_ge [OF pr(3) False] have eps: "1 / (2 * 10 ^ 50) \<le> n" .
      then have npos: "0 < n" by (rule less_le_trans [rotated]) simp
      from descend_returns [OF npos pr(4) pr(5), of exp']
      show ?thesis
      proof
        assume "descend n cur prev exp' = Some Underflow"
        then have "reduceN cur prev exp' st = Some (st\<lparr>warned := True\<rparr>)"
          using False by (subst reduceN.simps) (simp add: n_def)
        then show ?thesis by simp
      next
        assume "\<exists>c p e. descend n cur prev exp' = Some (Fits c p e) \<and> 0 < c \<and> 0 < p \<and> c \<le> n \<and>
          c + p \<le> cur + prev \<and> (n < cur \<longrightarrow> c + p + n \<le> cur + prev)"
        then obtain c p e where d: "descend n cur prev exp' = Some (Fits c p e)"
          and b: "0 < c" "0 < p" "c \<le> n" "c + p \<le> cur + prev"
          and s: "n < cur \<longrightarrow> c + p + n \<le> cur + prev" by blast
        have r: "reduceN cur prev exp' st = reduceN c p e (storeExp e c st)"
          using False d by (subst reduceN.simps) (simp add: n_def)
        have rem: "0 \<le> remaining (storeExp e c st)"
          using b(3) by (simp add: remaining_storeExp n_def)
        show ?thesis
        proof (cases "n < cur")
          case True
          with s eps have "c + p + 1 / (2 * 10 ^ 50) \<le> cur + prev" by simp
          then have "(c + p + 1 / (2 * 10 ^ 50)) * (2 * 10 ^ 50) \<le> (cur + prev) * (2 * 10 ^ 50)"
            by (rule mult_right_mono) simp
          then have "(c + p) * (2 * 10 ^ 50) + 1 \<le> (cur + prev) * (2 * 10 ^ 50)"
            by (simp add: algebra_simps)
          then have "\<lfloor>(c + p) * (2 * 10 ^ 50) + 1\<rfloor> \<le> \<lfloor>(cur + prev) * (2 * 10 ^ 50)\<rfloor>"
            by (rule floor_mono)
          then have f: "\<lfloor>(c + p) * (2 * 10 ^ 50)\<rfloor> + 1 \<le> \<lfloor>(cur + prev) * (2 * 10 ^ 50)\<rfloor>"
            by simp
          have "0 \<le> (c + p) * (2 * 10 ^ 50)" using b by simp
          then have "0 \<le> \<lfloor>(c + p) * (2 * 10 ^ 50)\<rfloor>" by simp
          with f have "nat \<lfloor>(c + p) * (2 * 10 ^ 50)\<rfloor> < nat \<lfloor>(cur + prev) * (2 * 10 ^ 50)\<rfloor>"
            by linarith
          then have m: "nat \<lfloor>(c + p) * (2 * 10 ^ 50)\<rfloor> < a" by (simp only: pr(1))
          from outer [OF m refl refl rem b(1) b(2), of e] show ?thesis by (simp only: r)
        next
          case False
          then have "descend n cur prev exp' = Some (Fits cur prev exp')"
            by (subst descend.simps) simp
          with d have eq: "c = cur" "p = prev" "e = exp'" by simp_all
          have "1 \<le> n / cur" using False pr(4) by (simp add: field_simps)
          then have one: "1 \<le> \<lfloor>n / cur\<rfloor>" by simp
          have "(n - cur) / cur = n / cur - 1" using pr(4) by (simp add: field_simps)
          then have "\<lfloor>(n - cur) / cur\<rfloor> = \<lfloor>n / cur\<rfloor> - 1" by simp
          with one have "nat \<lfloor>(n - cur) / cur\<rfloor> < nat \<lfloor>n / cur\<rfloor>" by linarith
          then have m: "nat \<lfloor>remaining (storeExp e c st) / c\<rfloor> < b"
            by (simp only: remaining_storeExp eq n_def [symmetric] pr(2))
          have a': "nat \<lfloor>(c + p) * (2 * 10 ^ 50)\<rfloor> = a" by (simp only: eq pr(1))
          from less.IH [OF m a' refl rem b(1) b(2), of e] show ?thesis by (simp only: r)
        qed
      qed
    qed
  qed
qed

lemma reduceN_returns:
  "0 \<le> remaining st \<Longrightarrow> 0 < cur \<Longrightarrow> 0 < prev \<Longrightarrow> \<exists>st'. reduceN cur prev exp' st = Some st'"
  by (rule reduceN_returns_aux [OF refl refl])

lemma padDown_keeps: "x \<in> set out \<Longrightarrow> x \<in> set (fst (padDown zero out exp' nExp))"
proof (induction zero out exp' nExp rule: padDown.induct)
  case (1 zero out exp' nExp)
  show ?case
  proof (cases "nExp < exp'")
    case True
    with 1 show ?thesis by (subst padDown.simps) simp
  next
    case False
    with 1 show ?thesis by (subst padDown.simps) simp
  qed
qed

lemma renderDecExponents_keeps:
  "x \<in> set out \<Longrightarrow> x \<in> set (fst (renderDecExponents charset (out, exp') ds))"
proof (induction ds arbitrary: out exp')
  case Nil
  then show ?case by simp
next
  case (Cons d ds)
  obtain o1 e1 where p: "padDown (charsetAt charset 0) out exp' d = (o1, e1)" by force
  have "x \<in> set o1" using padDown_keeps [OF Cons.prems, of "charsetAt charset 0" exp' d] p by simp
  then have "x \<in> set (o1 @ charsetAt charset 1)" by simp
  from Cons.IH [OF this] show ?case by (simp add: p)
qed

lemma Phi_ge_1: "1 \<le> Phi"
  by (simp add: Phi_def)


lemma padDown_appends: "\<exists>fp. fst (padDown zero out exp' nExp) = out @ fp"
proof (induction zero out exp' nExp rule: padDown.induct)
  case (1 zero out exp' nExp)
  show ?case
  proof (cases "nExp < exp'")
    case True
    from 1 [OF True] obtain fp where "fst (padDown zero (out @ zero) (exp' - 1) nExp) = (out @ zero) @ fp"
      by blast
    then have "fst (padDown zero out exp' nExp) = out @ (zero @ fp)"
      using True by (subst padDown.simps) simp
    then show ?thesis by blast
  next
    case False
    then have "fst (padDown zero out exp' nExp) = out @ []" by (subst padDown.simps) simp
    then show ?thesis by blast
  qed
qed

lemma renderDecExponents_appends:
  "\<exists>fp. fst (renderDecExponents charset (out, exp') ds) = out @ fp"
proof (induction ds arbitrary: out exp')
  case Nil
  show ?case by simp
next
  case (Cons d ds)
  obtain o1 e1 where p: "padDown (charsetAt charset 0) out exp' d = (o1, e1)" by force
  from padDown_appends [of "charsetAt charset 0" out exp' d] p
  obtain f1 where f1: "o1 = out @ f1" by auto
  from Cons [of "o1 @ charsetAt charset 1" "e1 - 1"]
  obtain f2 where "fst (renderDecExponents charset (o1 @ charsetAt charset 1, e1 - 1) ds)
      = (o1 @ charsetAt charset 1) @ f2" by blast
  then have "fst (renderDecExponents charset (out, exp') (d # ds))
      = out @ (f1 @ charsetAt charset 1 @ f2)" by (simp add: p f1)
  then show ?case by blast
qed


section \<open>BasePhi: evaluation on concrete inputs\<close>

text \<open>
  The comparisons of the encoder are between sums of integer multiples of \<open>Phi\<close> and
  integers; nine decimals of \<open>Phi\<close> decide them for the inputs below.
\<close>

lemma approxNull_iff: "0 \<le> x \<Longrightarrow> approxNull x = (x < 1 / (2 * 10 ^ 50))"
proof (cases "x < 1 / (2 * 10 ^ 50)")
  case False
  assume x: "0 \<le> x"
  have "\<not> approxNull x"
  proof
    assume a: "approxNull x"
    define f where "f = \<lfloor>\<bar>x\<bar> * 10 ^ 50 + 1 / 2\<rfloor>"
    have "1 / (2 * 10 ^ 50) \<le> x" using False by simp
    then have "1 / 2 \<le> x * 10 ^ 50" by (simp add: field_simps)
    then have "1 \<le> \<bar>x\<bar> * 10 ^ 50 + 1 / 2" using x by simp
    then have f: "1 \<le> f" unfolding f_def by (simp only: le_floor_iff of_int_1)
    have "0 < x" using False x by (cases "x = 0") simp_all
    then have "sgn x = 1" by simp
    with a have "(of_int f :: rat) = 0" by (simp add: approxNull_def bigRound_def f_def)
    with f show False by simp
  qed
  with False show ?thesis by simp
next
  case True
  assume x: "0 \<le> x"
  have "approxNull x"
  proof (rule ccontr)
    assume "\<not> approxNull x"
    from not_approxNull_ge [OF x this] True show False by simp
  qed
  with True show ?thesis by simp
qed

lemma Phi_bounds: "1618033988 / 10 ^ 9 < Phi" "Phi < 1618033989 / 10 ^ 9"
  by (simp_all add: Phi_def)

lemmas phi_eval = BasePhi_encode_n_def findExp.simps reduceN.simps descend.simps
  nextPhiExp_def prevPhiExp_def approxNull_iff storeExp_def padUp.simps padDown.simps
  charsetAt_def Let_def


lemma e2: "BasePhi_encode_n [''0'', ''1''] 2 False = Some (''10.01'', False)"
  using Phi_bounds by (simp add: phi_eval)

lemma e12: "BasePhi_encode_n [''0'', ''1''] 12 False = Some (''100000.101001'', False)"
  using Phi_bounds by (simp add: phi_eval)

lemma bigRound_0_of_int: "0 \<le> z \<Longrightarrow> \<lfloor>bigRound 0 (of_int z)\<rfloor> = z"
proof (cases "z = 0")
  case True
  then show ?thesis by (simp add: bigRound_def)
next
  case False
  assume "0 \<le> z"
  with False have z: "0 < z" by simp
  have "\<lfloor>(of_int z :: rat) + 1 / 2\<rfloor> = z" by (rule floor_unique) simp_all
  moreover have "\<bar>(of_int z :: rat)\<bar> = of_int z" using z by simp
  moreover have "sgn (of_int z :: rat) = 1" using z by simp
  ultimately show ?thesis by (simp add: bigRound_def)
qed

lemma bigRound_0_numeral: "\<lfloor>bigRound 0 (numeral w)\<rfloor> = numeral w"
  using bigRound_0_of_int [of "numeral w"] by simp

lemma bigRound_0_0: "\<lfloor>bigRound 0 0\<rfloor> = 0"
  using bigRound_0_of_int [of 0] by simp

lemma bigRound_0_1: "\<lfloor>bigRound 0 1\<rfloor> = 1"
  using bigRound_0_of_int [of 1] by simp

lemmas phi_dec_eval = BasePhi_decode_def extractSign_def nextPhiExp_def prevPhiExp_def Let_def
  bigRound_0_numeral bigRound_0_0 bigRound_0_1


lemma rt0: "BasePhi_encode_n [''0'', ''1''] 0 False = Some (''0'', False) \<and>
  BasePhi_decode [''0'', ''1''] ''0'' = Inr (0, False)"
  using Phi_bounds by (simp add: phi_eval phi_dec_eval)

lemma rt1: "BasePhi_encode_n [''0'', ''1''] 1 False = Some (''1'', False) \<and>
  BasePhi_decode [''0'', ''1''] ''1'' = Inr (1, False)"
  using Phi_bounds by (simp add: phi_eval phi_dec_eval)

lemma rt2: "BasePhi_encode_n [''0'', ''1''] 2 False = Some (''10.01'', False) \<and>
  BasePhi_decode [''0'', ''1''] ''10.01'' = Inr (2, False)"
  using Phi_bounds by (simp add: phi_eval phi_dec_eval)

lemma rt3: "BasePhi_encode_n [''0'', ''1''] 3 False = Some (''100.01'', False) \<and>
  BasePhi_decode [''0'', ''1''] ''100.01'' = Inr (3, False)"
  using Phi_bounds by (simp add: phi_eval phi_dec_eval)

lemma rt4: "BasePhi_encode_n [''0'', ''1''] 4 False = Some (''101.01'', False) \<and>
  BasePhi_decode [''0'', ''1''] ''101.01'' = Inr (4, False)"
  using Phi_bounds by (simp add: phi_eval phi_dec_eval)

lemma rt5: "BasePhi_encode_n [''0'', ''1''] 5 False = Some (''1000.1001'', False) \<and>
  BasePhi_decode [''0'', ''1''] ''1000.1001'' = Inr (5, False)"
  using Phi_bounds by (simp add: phi_eval phi_dec_eval)

lemma rt6: "BasePhi_encode_n [''0'', ''1''] 6 False = Some (''1010.0001'', False) \<and>
  BasePhi_decode [''0'', ''1''] ''1010.0001'' = Inr (6, False)"
  using Phi_bounds by (simp add: phi_eval phi_dec_eval)

lemma rt7: "BasePhi_encode_n [''0'', ''1''] 7 False = Some (''10000.0001'', False) \<and>
  BasePhi_decode [''0'', ''1''] ''10000.0001'' = Inr (7, False)"
  using Phi_bounds by (simp add: phi_eval phi_dec_eval)

lemma rt8: "BasePhi_encode_n [''0'', ''1''] 8 False = Some (''10001.0001'', False) \<and>
  BasePhi_decode [''0'', ''1''] ''10001.0001'' = Inr (8, False)"
  using Phi_bounds by (simp add: phi_eval phi_dec_eval)

lemma rt9: "BasePhi_encode_n [''0'', ''1''] 9 False = Some (''10010.0101'', False) \<and>
  BasePhi_decode [''0'', ''1''] ''10010.0101'' = Inr (9, False)"
  using Phi_bounds by (simp add: phi_eval phi_dec_eval)

lemma rt10: "BasePhi_encode_n [''0'', ''1''] 10 False = Some (''10100.0101'', False) \<and>
  BasePhi_decode [''0'', ''1''] ''10100.0101'' = Inr (10, False)"
  using Phi_bounds by (simp add: phi_eval phi_dec_eval)

lemma rt11: "BasePhi_encode_n [''0'', ''1''] 11 False = Some (''10101.0101'', False) \<and>
  BasePhi_decode [''0'', ''1''] ''10101.0101'' = Inr (11, False)"
  using Phi_bounds by (simp add: phi_eval phi_dec_eval)

lemma rt12: "BasePhi_encode_n [''0'', ''1''] 12 False = Some (''100000.101001'', False) \<and>
  BasePhi_decode [''0'', ''1''] ''100000.101001'' = Inr (12, False)"
  using Phi_bounds by (simp add: phi_eval phi_dec_eval)

text \<open>
  Claim C10. For every magnitude \<open>n \<ge> 0\<close> other than 0 and 1, every charset and both
  signs, \<open>encode\<close> returns, and the string it returns is the sign, a non-empty integer
  part, the radix point and the fractional part (which may be empty): it contains the
  radix point. For 0 and 1 the string, with the default charset, is the digit with the
  sign and contains no radix point.
\<close>

theorem BasePhi_encode_radix_point:
  assumes "0 \<le> n"
  shows "(n \<noteq> 0 \<and> n \<noteq> 1 \<longrightarrow>
            (\<exists>s w ip fp. BasePhi_encode_n charset n negative = Some (s, w) \<and>
               CHR ''.'' \<in> set s \<and>
               s = (if negative then ''-'' else []) @ ip @ ''.'' @ fp \<and> ip \<noteq> [])) \<and>
         (n = 0 \<or> n = 1 \<longrightarrow>
            (\<exists>s. BasePhi_encode_n [''0'', ''1''] n negative = Some (s, False) \<and>
                 CHR ''.'' \<notin> set s))"
proof (intro conjI impI)
  assume n: "n \<noteq> 0 \<and> n \<noteq> 1"
  from findExp_returns [of 1 Phi n 0] Phi_ge_1
  obtain l c e where f: "findExp n 1 Phi 0 = Some (l, c, e)" and lc: "1 \<le> l" "1 \<le> c" by auto
  have l: "0 < l" and c: "0 < c" using lc by simp_all
  from reduceN_returns [of "\<lparr>remaining = n, exponents = [], decExponents = [], warned = False\<rparr>" l c e]
    assms l c
  obtain st where r: "reduceN l c e \<lparr>remaining = n, exponents = [], decExponents = [], warned = False\<rparr>
      = Some st" by auto
  define out1 where "out1 = fst (renderExponents charset ([], 0) (exponents st))"
  define ip where "ip = (if out1 = [] then ''0'' else out1)"
  define out2 where "out2 = (if out1 = [] then ''0.'' else out1 @ ''.'')"
  define out3 where "out3 = fst (renderDecExponents charset (out2, - 1) (decExponents st))"
  have o2: "out2 = ip @ ''.''" by (simp add: out2_def ip_def)
  from renderDecExponents_appends [of charset out2 "- 1" "decExponents st"]
  obtain fp where o3: "out3 = ip @ ''.'' @ fp" by (auto simp: out3_def o2)
  have ip: "ip \<noteq> []" by (simp add: ip_def)
  have "BasePhi_encode_n charset n negative
          = Some (if negative then ''-'' @ out3 else out3, warned st)"
    using n by (simp add: BasePhi_encode_n_def f r Let_def out1_def out2_def out3_def)
  then have "BasePhi_encode_n charset n negative
      = Some ((if negative then ''-'' else []) @ ip @ ''.'' @ fp, warned st)"
    by (simp add: o3)
  moreover have "CHR ''.'' \<in> set ((if negative then ''-'' else []) @ ip @ ''.'' @ fp)" by simp
  ultimately show "\<exists>s w ip fp. BasePhi_encode_n charset n negative = Some (s, w) \<and>
      CHR ''.'' \<in> set s \<and> s = (if negative then ''-'' else []) @ ip @ ''.'' @ fp \<and> ip \<noteq> []"
    using ip by blast
next
  assume "n = 0 \<or> n = 1"
  then show "\<exists>s. BasePhi_encode_n [''0'', ''1''] n negative = Some (s, False) \<and> CHR ''.'' \<notin> set s"
    by (auto simp: BasePhi_encode_n_def charsetAt_def Let_def)
qed

theorem BasePhi_encode_radix_point_witness:
  "(0::rat) \<le> 2 \<and> (0::rat) \<le> 1 \<and>
   BasePhi_encode_n [''0'', ''1''] 2 False = Some (''10.01'', False) \<and>
   CHR ''.'' \<in> set ''10.01'' \<and>
   (\<exists>s. BasePhi_encode_n [''0'', ''1''] 1 True = Some (s, False) \<and> CHR ''.'' \<notin> set s)"
  using BasePhi_encode_radix_point [of 2 "[''0'', ''1'']" False]
    BasePhi_encode_radix_point [of 1 "[''0'', ''1'']" True] e2
  by simp


section \<open>BasePhi: the powers of Phi\<close>

lemma phiPow_0: "phiPow 0 = 1" and phiPow_1: "phiPow 1 = Phi" and phiPow_m1: "phiPow (- 1) = Phi - 1"
  by (simp_all add: phiPow_def)

lemma phiPow_rec: "phiPow (e + 1) = phiPow e + phiPow (e - 1)"
proof -
  consider "1 \<le> e" | "e = 0" | "e = - 1" | "e \<le> - 2" by linarith
  then show ?thesis
  proof cases
    case 1
    then obtain k where k: "nat e = Suc k" by (cases "nat e") simp_all
    then have "nat (e + 1) = Suc (Suc k)" and "nat (e - 1) = k" using 1 by simp_all
    with 1 k show ?thesis by (simp add: phiPow_def)
  next
    case 2
    then show ?thesis by (simp add: phiPow_def)
  next
    case 3
    then show ?thesis by (simp add: phiPow_def numeral_2_eq_2)
  next
    case 4
    then obtain k where k: "nat (- e) = Suc (Suc k)"
      by (cases "nat (- e)"; cases "nat (- e) - 1") simp_all
    then have "nat (- (e + 1)) = Suc k" and "nat (- (e - 1)) = Suc (Suc (Suc k))"
      using 4 by simp_all
    with 4 k show ?thesis by (simp add: phiPow_def)
  qed
qed

lemma phiPow_next: "nextPhiExp (phiPow (e - 1)) (phiPow e) = (phiPow e, phiPow (e + 1))"
proof -
  have "phiPow (e - 1) + phiPow e = phiPow (e + 1)" using phiPow_rec [of e] by simp
  then show ?thesis by (simp only: nextPhiExp_def)
qed

lemma phiPow_prev: "prevPhiExp (phiPow e) (phiPow (e + 1)) = (phiPow (e - 1), phiPow e)"
  by (simp add: prevPhiExp_def phiPow_rec)

lemma powUp_pos: "1 \<le> powUp k \<and> 1 \<le> powUp (Suc k)"
proof (induction k)
  case 0
  show ?case using Phi_ge_1 by simp
next
  case (Suc k)
  then show ?case by simp
qed

lemma Phi_scaled: "Phi = of_int PhiNum / 10 ^ 120"
  by (simp add: Phi_def PhiNum_def)

lemma powDown_scaled: "powDown k = of_int (scaledDown (Suc k)) / 10 ^ 120"
proof (induction k rule: powDown.induct)
  case 1
  show ?case by simp
next
  case 2
  show ?case by (simp add: Phi_scaled diff_divide_distrib)
next
  case (3 k)
  then show ?case by (simp add: diff_divide_distrib)
qed

lemma allPos_scaledDown:
  "allPos k (scaledDown (Suc m)) (scaledDown m) \<Longrightarrow> i \<le> k \<Longrightarrow> 0 < scaledDown (Suc (m + i))"
proof (induction k arbitrary: m i)
  case 0
  then show ?case by simp
next
  case (Suc k)
  show ?case
  proof (cases i)
    case 0
    with Suc.prems show ?thesis by simp
  next
    case (Suc j)
    have "allPos k (scaledDown (Suc (Suc m))) (scaledDown (Suc m))" using Suc.prems(1) by simp
    from Suc.IH [OF this, of j] Suc.prems(2) Suc show ?thesis by simp
  qed
qed

lemma lastBelow_scaledDown:
  "lastBelow k (scaledDown (Suc m)) (scaledDown m) b \<Longrightarrow> scaledDown (Suc (m + k)) < b"
proof (induction k arbitrary: m)
  case 0
  then show ?case by simp
next
  case (Suc k)
  have "lastBelow k (scaledDown (Suc (Suc m))) (scaledDown (Suc m)) b" using Suc.prems by simp
  from Suc.IH [OF this] show ?case by simp
qed

lemma allPos_numeral:
  "allPos (numeral w) c p = (0 < c \<and> allPos (pred_numeral w) (p - c) c)"
  by (simp add: numeral_eq_Suc)

lemma lastBelow_numeral:
  "lastBelow (numeral w) c p b = lastBelow (pred_numeral w) (p - c) c b"
  by (simp add: numeral_eq_Suc)

lemma allPos_243: "allPos 243 (10 ^ 120) PhiNum"
  by (simp add: allPos_numeral PhiNum_def)

lemma lastBelow_241: "lastBelow 241 (10 ^ 120) PhiNum (5 * 10 ^ 69)"
  by (simp add: lastBelow_numeral PhiNum_def)

text \<open>
  Down to the exponent \<open>-243\<close> the powers are positive, hence decreasing down to \<open>-241\<close>,
  and at \<open>-241\<close> they are below \<open>5 * 10 ^ -51\<close>, the threshold of \<open>approxNull\<close>.
\<close>

lemma powDown_pos: "m \<le> 243 \<Longrightarrow> 0 < powDown m"
proof -
  assume m: "m \<le> 243"
  have "allPos 243 (scaledDown (Suc 0)) (scaledDown 0)" using allPos_243 by simp
  from allPos_scaledDown [OF this m] show ?thesis by (simp add: powDown_scaled)
qed

lemma powDown_241: "powDown 241 < 1 / (2 * 10 ^ 50)"
proof -
  have "lastBelow 241 (scaledDown (Suc 0)) (scaledDown 0) (5 * 10 ^ 69)"
    using lastBelow_241 by simp
  from lastBelow_scaledDown [OF this] have "scaledDown (Suc 241) < 5 * 10 ^ 69" by simp
  then have "(of_int (scaledDown (Suc 241)) :: rat) < of_int (5 * 10 ^ 69)"
    by (simp only: of_int_less_iff)
  then have "(of_int (scaledDown (Suc 241)) :: rat) / 10 ^ 120 < of_int (5 * 10 ^ 69) / 10 ^ 120"
    by (rule divide_strict_right_mono) simp
  also have "(of_int (5 * 10 ^ 69) :: rat) / 10 ^ 120 = 1 / (2 * 10 ^ 50)" by simp
  finally show ?thesis by (simp only: powDown_scaled)
qed

lemma powDown_decreasing: "m \<le> 241 \<Longrightarrow> powDown (Suc m) < powDown m"
proof -
  assume "m \<le> 241"
  then have "0 < powDown (Suc (Suc m))" by (intro powDown_pos) simp
  then show ?thesis by simp
qed

lemma phiPow_pos: "- 243 \<le> e \<Longrightarrow> 0 < phiPow e"
proof (cases "0 \<le> e")
  case True
  have "1 \<le> powUp (nat e)" using powUp_pos [of "nat e"] by simp
  with True show ?thesis by (simp add: phiPow_def)
next
  case False
  assume "- 243 \<le> e"
  with False have "nat (- e) \<le> 243" by simp
  from powDown_pos [OF this] False show ?thesis by (simp add: phiPow_def)
qed

lemma phiPow_less: "- 241 \<le> e \<Longrightarrow> phiPow (e - 1) < phiPow e"
proof -
  assume "- 241 \<le> e"
  then have "0 < phiPow (e - 2)" by (intro phiPow_pos) simp
  moreover have "phiPow e = phiPow (e - 1) + phiPow (e - 2)"
    using phiPow_rec [of "e - 1"] by simp
  ultimately show ?thesis by simp
qed

lemma phiPow_small: "e = - 241 \<or> e = - 242 \<Longrightarrow> phiPow e < 1 / (2 * 10 ^ 50)"
proof -
  have a: "phiPow (- 241) < 1 / (2 * 10 ^ 50)" using powDown_241 by (simp add: phiPow_def)
  have "phiPow (- 241 - 1) < phiPow (- 241)" by (rule phiPow_less) simp
  with a have "phiPow (- 242) < 1 / (2 * 10 ^ 50)" by simp
  moreover assume "e = - 241 \<or> e = - 242"
  ultimately show ?thesis using a by auto
qed

lemma phiPow_large: "- 242 \<le> e \<Longrightarrow> 1 / (2 * 10 ^ 50) \<le> phiPow e \<Longrightarrow> - 240 \<le> e"
proof (rule ccontr)
  assume "- 242 \<le> e" and b: "1 / (2 * 10 ^ 50) \<le> phiPow e" and "\<not> - 240 \<le> e"
  then have "e = - 241 \<or> e = - 242" by linarith
  from phiPow_small [OF this] b show False by simp
qed

section \<open>BasePhi: the greedy reduction\<close>

text \<open>
  \<open>encode\<close> stores exponents that decrease strictly, each with the largest power that
  fits into what remains; the exponent \<open>-241\<close> is never passed, because the remainder is
  below the threshold before; so the warning is never written for an integer \<open>n \<ge> 2\<close>.
\<close>

lemma findExp_spec:
  "0 \<le> e \<Longrightarrow>
     \<exists>k. findExp n (phiPow e) (phiPow (e + 1)) e = Some (phiPow k, phiPow (k + 1), k) \<and>
         e \<le> k \<and> n \<le> phiPow (k + 1) \<and> (e < k \<longrightarrow> phiPow k < n)"
proof (induction "nat \<lceil>n - phiPow (e + 1)\<rceil>" arbitrary: e rule: less_induct)
  case less
  show ?case
  proof (cases "phiPow (e + 1) < n")
    case False
    then have "findExp n (phiPow e) (phiPow (e + 1)) e = Some (phiPow e, phiPow (e + 1), e)"
      by (subst findExp.simps) simp
    with False show ?thesis by auto
  next
    case True
    have nx: "nextPhiExp (phiPow e) (phiPow (e + 1)) = (phiPow (e + 1), phiPow (e + 1 + 1))"
      using phiPow_next [of "e + 1"] by simp
    have eq: "findExp n (phiPow e) (phiPow (e + 1)) e
        = findExp n (phiPow (e + 1)) (phiPow (e + 1 + 1)) (e + 1)"
      using True by (subst findExp.simps) (simp add: nx)
    have "0 < phiPow e" using less.prems by (intro phiPow_pos) simp
    have one: "1 \<le> phiPow e" using powUp_pos [of "nat e"] less.prems by (simp add: phiPow_def)
    have "phiPow (e + 1 + 1) = phiPow (e + 1) + phiPow e" using phiPow_rec [of "e + 1"] by simp
    then have "n - phiPow (e + 1 + 1) \<le> n - phiPow (e + 1) - 1" using one by simp
    then have "\<lceil>n - phiPow (e + 1 + 1)\<rceil> \<le> \<lceil>n - phiPow (e + 1) - 1\<rceil>" by (rule ceiling_mono)
    moreover have "0 < \<lceil>n - phiPow (e + 1)\<rceil>" using True by simp
    ultimately have m: "nat \<lceil>n - phiPow (e + 1 + 1)\<rceil> < nat \<lceil>n - phiPow (e + 1)\<rceil>" by simp
    have "0 \<le> e + 1" using less.prems by simp
    from less.hyps [OF m this]
    obtain k where k: "findExp n (phiPow (e + 1)) (phiPow (e + 1 + 1)) (e + 1)
          = Some (phiPow k, phiPow (k + 1), k)"
      and b: "e + 1 \<le> k" "n \<le> phiPow (k + 1)" "e + 1 < k \<longrightarrow> phiPow k < n" by blast
    have "phiPow k < n"
    proof (cases "e + 1 < k")
      case True
      with b(3) show ?thesis by simp
    next
      case False
      with b(1) have "k = e + 1" by simp
      with \<open>phiPow (e + 1) < n\<close> show ?thesis by simp
    qed
    with k b show ?thesis by (auto simp: eq)
  qed
qed

lemma descend_spec:
  "- 241 \<le> e \<Longrightarrow> 1 / (2 * 10 ^ 50) \<le> n \<Longrightarrow>
     \<exists>k. descend n (phiPow e) (phiPow (e + 1)) e = Some (Fits (phiPow k) (phiPow (k + 1)) k) \<and>
         - 241 \<le> k \<and> k \<le> e \<and> phiPow k \<le> n \<and> (k < e \<longrightarrow> n < phiPow (k + 1)) \<and>
         (n < phiPow e \<longrightarrow> k < e)"
proof (induction "nat (e + 241)" arbitrary: e rule: less_induct)
  case less
  show ?case
  proof (cases "n < phiPow e")
    case False
    then have "descend n (phiPow e) (phiPow (e + 1)) e = Some (Fits (phiPow e) (phiPow (e + 1)) e)"
      by (subst descend.simps) simp
    with False less.prems show ?thesis by auto
  next
    case True
    with less.prems(2) have "1 / (2 * 10 ^ 50) \<le> phiPow e" by simp
    from phiPow_large [OF _ this] less.prems(1) have e: "- 240 \<le> e" by simp
    then have pos: "0 < phiPow (e - 1)" by (intro phiPow_pos) simp
    have eq: "descend n (phiPow e) (phiPow (e + 1)) e
        = descend n (phiPow (e - 1)) (phiPow (e - 1 + 1)) (e - 1)"
      using True pos by (subst descend.simps) (simp add: phiPow_prev)
    have m: "nat (e - 1 + 241) < nat (e + 241)" using e by simp
    have "- 241 \<le> e - 1" using e by simp
    from less.hyps [OF m this less.prems(2)]
    obtain k where k: "descend n (phiPow (e - 1)) (phiPow (e - 1 + 1)) (e - 1)
          = Some (Fits (phiPow k) (phiPow (k + 1)) k)"
      and b: "- 241 \<le> k" "k \<le> e - 1" "phiPow k \<le> n" "k < e - 1 \<longrightarrow> n < phiPow (k + 1)" by blast
    have "n < phiPow (k + 1)"
    proof (cases "k < e - 1")
      case True
      with b(4) show ?thesis by simp
    next
      case False
      with b(2) have "k + 1 = e" by simp
      with \<open>n < phiPow e\<close> show ?thesis by simp
    qed
    with k b show ?thesis by (auto simp: eq)
  qed
qed

lemma stored_mono: "stored n0 b st \<Longrightarrow> b' \<le> b \<Longrightarrow> stored n0 b' st"
  by (fastforce simp: stored_def)

lemma stored_storeExp:
  assumes "stored n0 e st" and "k < e"
  shows "stored n0 k (storeExp k (phiPow k) st)"
proof (cases "- 1 < k")
  case True
  have "\<forall>x\<in>set (exponents st). k < x" using assms by (fastforce simp: stored_def)
  moreover have "\<forall>x\<in>set (decExponents st). k \<le> x" using assms by (fastforce simp: stored_def)
  ultimately show ?thesis using assms True
    by (auto simp: stored_def storeExp_def sumPow_def)
next
  case False
  have "\<forall>x\<in>set (decExponents st). k < x" using assms by (fastforce simp: stored_def)
  moreover have "\<forall>x\<in>set (exponents st). k \<le> x" using assms by (fastforce simp: stored_def)
  ultimately show ?thesis using assms False
    by (auto simp: stored_def storeExp_def sumPow_def sorted_wrt_append)
qed

lemma reduceN_spec:
  "- 241 \<le> e \<Longrightarrow> 0 \<le> remaining st \<Longrightarrow> remaining st \<le> phiPow (e - 1) \<Longrightarrow> stored n0 e st \<Longrightarrow>
     \<exists>st'. reduceN (phiPow e) (phiPow (e + 1)) e st = Some st' \<and> stored n0 (- 241) st' \<and>
           0 \<le> remaining st' \<and> remaining st' < 1 / (2 * 10 ^ 50)"
proof (induction "nat (e + 241)" arbitrary: e st rule: less_induct)
  case less
  define n where "n = remaining st"
  note pr = less.prems [folded n_def]
  show ?case
  proof (cases "approxNull n")
    case True
    then have "reduceN (phiPow e) (phiPow (e + 1)) e st = Some st"
      by (subst reduceN.simps) (simp add: n_def)
    moreover have "n < 1 / (2 * 10 ^ 50)" using True pr(2) by (simp add: approxNull_iff)
    moreover have "stored n0 (- 241) st" using pr(4) pr(1) by (rule stored_mono)
    ultimately show ?thesis using pr(2) by (simp add: n_def)
  next
    case False
    from not_approxNull_ge [OF pr(2) False] have eps: "1 / (2 * 10 ^ 50) \<le> n" .
    with pr(3) have "1 / (2 * 10 ^ 50) \<le> phiPow (e - 1)" by simp
    from phiPow_large [OF _ this] pr(1) have e: "- 240 \<le> e - 1" by simp
    have "phiPow (e - 1) < phiPow e" using pr(1) by (rule phiPow_less)
    with pr(3) have lt: "n < phiPow e" by simp
    from descend_spec [OF pr(1) eps] lt
    obtain k where d: "descend n (phiPow e) (phiPow (e + 1)) e
          = Some (Fits (phiPow k) (phiPow (k + 1)) k)"
      and b: "- 241 \<le> k" "k < e" "phiPow k \<le> n" "n < phiPow (k + 1)" by blast
    have r: "reduceN (phiPow e) (phiPow (e + 1)) e st
        = reduceN (phiPow k) (phiPow (k + 1)) k (storeExp k (phiPow k) st)"
      using False d by (subst reduceN.simps) (simp add: n_def)
    have rem: "remaining (storeExp k (phiPow k) st) = n - phiPow k"
      by (simp add: remaining_storeExp n_def)
    have r0: "0 \<le> remaining (storeExp k (phiPow k) st)" using b(3) by (simp add: rem)
    have "phiPow (k + 1) = phiPow k + phiPow (k - 1)" by (rule phiPow_rec)
    with b(4) have r1: "remaining (storeExp k (phiPow k) st) \<le> phiPow (k - 1)"
      by (simp add: rem)
    have s: "stored n0 k (storeExp k (phiPow k) st)" using pr(4) b(2) by (rule stored_storeExp)
    have m: "nat (k + 241) < nat (e + 241)" using b(1) b(2) by simp
    from less.hyps [OF m b(1) r0 r1 s] show ?thesis by (simp only: r)
  qed
qed

lemma Phi_less_2: "Phi < 2"
  using Phi_bounds by simp

lemma encode_state:
  assumes n: "2 \<le> n"
  shows "\<exists>e st. findExp n 1 Phi 0 = Some (phiPow e, phiPow (e + 1), e) \<and>
           reduceN (phiPow e) (phiPow (e + 1)) e
             \<lparr>remaining = n, exponents = [], decExponents = [], warned = False\<rparr> = Some st \<and>
           stored n (- 241) st \<and> 0 \<le> remaining st \<and> remaining st < 1 / (2 * 10 ^ 50)"
proof -
  define st0 where "st0 = \<lparr>remaining = n, exponents = [], decExponents = [], warned = False\<rparr>"
  from findExp_spec [of 0 n]
  obtain e where f: "findExp n (phiPow 0) (phiPow (0 + 1)) 0 = Some (phiPow e, phiPow (e + 1), e)"
    and b: "0 \<le> e" "n \<le> phiPow (e + 1)" "0 < e \<longrightarrow> phiPow e < n" by auto
  have "e \<noteq> 0"
  proof
    assume "e = 0"
    with b(2) have "n \<le> Phi" by (simp add: phiPow_1)
    with n Phi_less_2 show False by simp
  qed
  with b have e: "1 \<le> e" and lt: "phiPow e < n" by simp_all
  have f': "findExp n 1 Phi 0 = Some (phiPow e, phiPow (e + 1), e)"
    using f by (simp add: phiPow_0 phiPow_1)
  have na: "\<not> approxNull n" using n by (simp add: approxNull_iff)
  have d: "descend n (phiPow e) (phiPow (e + 1)) e = Some (Fits (phiPow e) (phiPow (e + 1)) e)"
    using lt by (subst descend.simps) simp
  have r: "reduceN (phiPow e) (phiPow (e + 1)) e st0
      = reduceN (phiPow e) (phiPow (e + 1)) e (storeExp e (phiPow e) st0)"
    using na d by (subst reduceN.simps) (simp add: st0_def)
  have rem: "remaining (storeExp e (phiPow e) st0) = n - phiPow e"
    by (simp add: remaining_storeExp st0_def)
  have r0: "0 \<le> remaining (storeExp e (phiPow e) st0)" using lt by (simp add: rem)
  have "phiPow (e + 1) = phiPow e + phiPow (e - 1)" by (rule phiPow_rec)
  with b(2) have r1: "remaining (storeExp e (phiPow e) st0) \<le> phiPow (e - 1)" by (simp add: rem)
  have s: "stored n e (storeExp e (phiPow e) st0)"
    using e by (simp add: stored_def storeExp_def st0_def sumPow_def)
  have "- 241 \<le> e" using e by simp
  from reduceN_spec [OF this r0 r1 s]
  obtain st' where "reduceN (phiPow e) (phiPow (e + 1)) e (storeExp e (phiPow e) st0) = Some st'"
    and p: "stored n (- 241) st'" "0 \<le> remaining st'" "remaining st' < 1 / (2 * 10 ^ 50)"
    by blast
  then have "reduceN (phiPow e) (phiPow (e + 1)) e st0 = Some st'" by (simp only: r)
  with f' p show ?thesis unfolding st0_def by (intro exI [of _ e] exI [of _ st']) simp
qed

section \<open>BasePhi: decoding the rendered digits\<close>

lemma padUp_zeros:
  "x \<le> e \<Longrightarrow> padUp ''0'' out x e = (replicate (nat (e - x)) CHR ''0'' @ out, e)"
proof (induction "nat (e - x)" arbitrary: out x)
  case 0
  then have "x = e" by simp
  then show ?case by (subst padUp.simps) simp
next
  case (Suc k)
  then have lt: "x < e" and k: "k = nat (e - (x + 1))" and le: "x + 1 \<le> e" by simp_all
  have "padUp ''0'' out x e = padUp ''0'' (''0'' @ out) (x + 1) e"
    using lt by (subst padUp.simps) simp
  also have "\<dots> = (replicate (nat (e - (x + 1))) CHR ''0'' @ (''0'' @ out), e)"
    by (rule Suc.hyps(1) [OF k le])
  also have "replicate (nat (e - (x + 1))) CHR ''0'' @ (''0'' @ out)
      = replicate (nat (e - x)) CHR ''0'' @ out"
    using Suc.hyps(2) [symmetric] k by (simp add: replicate_app_Cons_same)
  finally show ?case .
qed

lemma padDown_zeros:
  "e \<le> x \<Longrightarrow> padDown ''0'' out x e = (out @ replicate (nat (x - e)) CHR ''0'', e)"
proof (induction "nat (x - e)" arbitrary: out x)
  case 0
  then have "x = e" by simp
  then show ?case by (subst padDown.simps) simp
next
  case (Suc k)
  then have lt: "e < x" and k: "k = nat (x - 1 - e)" and le: "e \<le> x - 1" by simp_all
  have "padDown ''0'' out x e = padDown ''0'' (out @ ''0'') (x - 1) e"
    using lt by (subst padDown.simps) simp
  also have "\<dots> = ((out @ ''0'') @ replicate (nat (x - 1 - e)) CHR ''0'', e)"
    by (rule Suc.hyps(1) [OF k le])
  also have "(out @ ''0'') @ replicate (nat (x - 1 - e)) CHR ''0''
      = out @ replicate (nat (x - e)) CHR ''0''"
    using Suc.hyps(2) [symmetric] k by simp
  finally show ?case .
qed

lemma indexOfStr_default:
  "indexOfStr [''0'', ''1''] ''0'' = Some 0" "indexOfStr [''0'', ''1''] ''1'' = Some 1"
  by simp_all

lemma posLoop_one:
  "posLoop [''0'', ''1''] (n, phiPow (j - 1), phiPow j) (CHR ''1'' # rest)
     = posLoop [''0'', ''1''] (n + phiPow j, phiPow j, phiPow (j + 1)) rest"
  by (simp add: phiPow_next)

lemma posLoop_zero:
  "posLoop [''0'', ''1''] (n, phiPow (j - 1), phiPow j) (CHR ''0'' # rest)
     = posLoop [''0'', ''1''] (n, phiPow j, phiPow (j + 1)) rest"
  by (simp add: phiPow_next)

lemma posLoop_zeros:
  "posLoop [''0'', ''1''] (n, phiPow (j - 1), phiPow j) (replicate k CHR ''0'' @ rest)
     = posLoop [''0'', ''1''] (n, phiPow (j + int k - 1), phiPow (j + int k)) rest"
proof (induction k arbitrary: j)
  case 0
  show ?case by simp
next
  case (Suc k)
  have i: "j + 1 + int k - 1 = j + int (Suc k) - 1" "j + 1 + int k = j + int (Suc k)" by simp_all
  have "posLoop [''0'', ''1''] (n, phiPow (j - 1), phiPow j) (replicate (Suc k) CHR ''0'' @ rest)
      = posLoop [''0'', ''1''] (n, phiPow (j + 1 - 1), phiPow (j + 1)) (replicate k CHR ''0'' @ rest)"
    using posLoop_zero [of n j] by simp
  also have "\<dots> = posLoop [''0'', ''1''] (n, phiPow (j + 1 + int k - 1), phiPow (j + 1 + int k)) rest"
    by (rule Suc.IH)
  finally show ?case by (simp only: i)
qed

lemma decLoop_one:
  "decLoop [''0'', ''1''] (n, phiPow j, phiPow (j + 1)) (CHR ''1'' # rest)
     = decLoop [''0'', ''1''] (n + phiPow j, phiPow (j - 1), phiPow j) rest"
  by (simp add: phiPow_prev)

lemma decLoop_zero:
  "decLoop [''0'', ''1''] (n, phiPow j, phiPow (j + 1)) (CHR ''0'' # rest)
     = decLoop [''0'', ''1''] (n, phiPow (j - 1), phiPow j) rest"
  by (simp add: phiPow_prev)

lemma decLoop_zeros:
  "decLoop [''0'', ''1''] (n, phiPow j, phiPow (j + 1)) (replicate k CHR ''0'' @ rest)
     = decLoop [''0'', ''1''] (n, phiPow (j - int k), phiPow (j - int k + 1)) rest"
proof (induction k arbitrary: j)
  case 0
  show ?case by simp
next
  case (Suc k)
  have i: "j - 1 - int k = j - int (Suc k)" by simp
  have "decLoop [''0'', ''1''] (n, phiPow j, phiPow (j + 1)) (replicate (Suc k) CHR ''0'' @ rest)
      = decLoop [''0'', ''1''] (n, phiPow (j - 1), phiPow (j - 1 + 1)) (replicate k CHR ''0'' @ rest)"
    using decLoop_zero [of n j] by simp
  also have "\<dots> = decLoop [''0'', ''1''] (n, phiPow (j - 1 - int k), phiPow (j - 1 - int k + 1)) rest"
    by (rule Suc.IH)
  finally show ?case by (simp only: i)
qed

lemma renderExponents_decoded:
  "sorted_wrt (<) es \<Longrightarrow> \<forall>e\<in>set es. x \<le> e \<Longrightarrow>
     \<exists>new. fst (renderExponents [''0'', ''1''] (out, x) es) = new @ out \<and>
           set new \<subseteq> {CHR ''0'', CHR ''1''} \<and> (es \<noteq> [] \<longrightarrow> new \<noteq> []) \<and>
           (\<forall>n. posLoop [''0'', ''1''] (n, phiPow (x - 1), phiPow x) (rev new)
                  = Inr (n + sumPow es))"
proof (induction es arbitrary: out x)
  case Nil
  show ?case by (simp add: sumPow_def)
next
  case (Cons e es)
  have xe: "x \<le> e" using Cons.prems(2) by simp
  define zs where "zs = replicate (nat (e - x)) CHR ''0''"
  have s: "sorted_wrt (<) es" and b: "\<forall>y\<in>set es. e + 1 \<le> y" using Cons.prems(1) by auto
  from Cons.IH [OF s b, of "CHR ''1'' # zs @ out"]
  obtain new where r: "fst (renderExponents [''0'', ''1''] (CHR ''1'' # zs @ out, e + 1) es)
        = new @ CHR ''1'' # zs @ out"
    and c: "set new \<subseteq> {CHR ''0'', CHR ''1''}"
    and d: "\<And>n. posLoop [''0'', ''1''] (n, phiPow (e + 1 - 1), phiPow (e + 1)) (rev new)
             = Inr (n + sumPow es)" by blast
  have "fst (renderExponents [''0'', ''1''] (out, x) (e # es)) = (new @ CHR ''1'' # zs) @ out"
    using r by (simp add: padUp_zeros [OF xe] charsetAt_def zs_def)
  moreover have "set (new @ CHR ''1'' # zs) \<subseteq> {CHR ''0'', CHR ''1''}"
    using c by (auto simp: zs_def)
  moreover have "posLoop [''0'', ''1''] (n, phiPow (x - 1), phiPow x) (rev (new @ CHR ''1'' # zs))
      = Inr (n + sumPow (e # es))" for n
  proof -
    have "rev (new @ CHR ''1'' # zs) = zs @ CHR ''1'' # rev new" by (simp add: zs_def)
    moreover have "x + int (nat (e - x)) = e" using xe by simp
    ultimately have "posLoop [''0'', ''1''] (n, phiPow (x - 1), phiPow x) (rev (new @ CHR ''1'' # zs))
        = posLoop [''0'', ''1''] (n, phiPow (e - 1), phiPow e) (CHR ''1'' # rev new)"
      using posLoop_zeros [of n x "nat (e - x)" "CHR ''1'' # rev new"] by (simp add: zs_def)
    also have "\<dots> = posLoop [''0'', ''1''] (n + phiPow e, phiPow (e + 1 - 1), phiPow (e + 1)) (rev new)"
      using posLoop_one [of n e "rev new"] by simp
    also have "\<dots> = Inr (n + phiPow e + sumPow es)" by (rule d)
    finally show ?thesis by (simp add: sumPow_def add.assoc)
  qed
  ultimately show ?case by (intro exI [of _ "new @ CHR ''1'' # zs"]) simp
qed

lemma renderDecExponents_decoded:
  "sorted_wrt (>) es \<Longrightarrow> \<forall>e\<in>set es. e \<le> x \<Longrightarrow>
     \<exists>new. fst (renderDecExponents [''0'', ''1''] (out, x) es) = out @ new \<and>
           set new \<subseteq> {CHR ''0'', CHR ''1''} \<and> (es \<noteq> [] \<longrightarrow> new \<noteq> []) \<and>
           (\<forall>n. decLoop [''0'', ''1''] (n, phiPow x, phiPow (x + 1)) new = Inr (n + sumPow es))"
proof (induction es arbitrary: out x)
  case Nil
  show ?case by (simp add: sumPow_def)
next
  case (Cons e es)
  have xe: "e \<le> x" using Cons.prems(2) by simp
  define zs where "zs = replicate (nat (x - e)) CHR ''0''"
  have s: "sorted_wrt (>) es" and b: "\<forall>y\<in>set es. y \<le> e - 1" using Cons.prems(1) by auto
  from Cons.IH [OF s b, of "(out @ zs) @ ''1''"]
  obtain new where r: "fst (renderDecExponents [''0'', ''1''] ((out @ zs) @ ''1'', e - 1) es)
        = ((out @ zs) @ ''1'') @ new"
    and c: "set new \<subseteq> {CHR ''0'', CHR ''1''}"
    and d: "\<And>n. decLoop [''0'', ''1''] (n, phiPow (e - 1), phiPow (e - 1 + 1)) new
             = Inr (n + sumPow es)" by blast
  have "fst (renderDecExponents [''0'', ''1''] (out, x) (e # es)) = out @ (zs @ CHR ''1'' # new)"
    using r by (simp add: padDown_zeros [OF xe] charsetAt_def zs_def)
  moreover have "set (zs @ CHR ''1'' # new) \<subseteq> {CHR ''0'', CHR ''1''}"
    using c by (auto simp: zs_def)
  moreover have "decLoop [''0'', ''1''] (n, phiPow x, phiPow (x + 1)) (zs @ CHR ''1'' # new)
      = Inr (n + sumPow (e # es))" for n
  proof -
    have "x - int (nat (x - e)) = e" using xe by simp
    then have "decLoop [''0'', ''1''] (n, phiPow x, phiPow (x + 1)) (zs @ CHR ''1'' # new)
        = decLoop [''0'', ''1''] (n, phiPow e, phiPow (e + 1)) (CHR ''1'' # new)"
      using decLoop_zeros [of n x "nat (x - e)" "CHR ''1'' # new"] by (simp add: zs_def)
    also have "\<dots> = decLoop [''0'', ''1''] (n + phiPow e, phiPow (e - 1), phiPow (e - 1 + 1)) new"
      using decLoop_one [of n e new] by simp
    also have "\<dots> = Inr (n + phiPow e + sumPow es)" by (rule d)
    finally show ?thesis by (simp add: sumPow_def add.assoc)
  qed
  ultimately show ?case by (intro exI [of _ "zs @ CHR ''1'' # new"]) simp
qed

lemma splitDot_nodot: "CHR ''.'' \<notin> set b \<Longrightarrow> splitDot b = [b]"
  by (induction b) auto

lemma splitDot_dot:
  "CHR ''.'' \<notin> set a \<Longrightarrow> CHR ''.'' \<notin> set b \<Longrightarrow> splitDot (a @ CHR ''.'' # b) = [a, b]"
  by (induction a) (auto simp: splitDot_nodot)

lemma bigRound_near:
  assumes "1 \<le> n" and "0 \<le> r" and "r < 1 / (2 * 10 ^ 50)"
  shows "\<lfloor>bigRound 0 (of_nat n - r)\<rfloor> = int n"
proof -
  define x :: rat where "x = of_nat n - r"
  have "(1::rat) / (2 * 10 ^ 50) < 1 / 2" by simp
  with assms(3) have r: "r < 1 / 2" by simp
  have n: "(1::rat) \<le> of_nat n" using assms(1) by simp
  have pos: "0 < x" using r n by (simp add: x_def)
  have "\<lfloor>x + 1 / 2\<rfloor> = int n"
    using r assms(2) by (intro floor_unique) (simp_all add: x_def)
  moreover have "sgn x = 1" and "\<bar>x\<bar> = x" using pos by simp_all
  ultimately show ?thesis unfolding x_def [symmetric] by (simp add: bigRound_def)
qed

lemma digits_no_dot: "set xs \<subseteq> {CHR ''0'', CHR ''1''} \<Longrightarrow> CHR ''.'' \<notin> set xs"
  by auto

lemma decode_rendered:
  assumes ip: "set ip \<subseteq> {CHR ''0'', CHR ''1''}" "ip \<noteq> []"
    and fp: "set fp \<subseteq> {CHR ''0'', CHR ''1''}"
    and a: "posLoop [''0'', ''1''] (0, Phi - 1, 1) (rev ip) = Inr a"
    and b: "fp \<noteq> [] \<longrightarrow> decLoop [''0'', ''1''] (a, Phi - 1, 1) fp = Inr b"
    and c: "fp = [] \<longrightarrow> b = a"
  shows "BasePhi_decode [''0'', ''1''] (ip @ ''.'' @ fp) = Inr (\<lfloor>bigRound 0 b\<rfloor>, False)"
proof -
  obtain ch rest where i: "ip = ch # rest" using ip(2) by (cases ip) simp_all
  have "ch \<noteq> CHR ''-''" using ip(1) i by auto
  then have s: "extractSign (ip @ ''.'' @ fp) = (ip @ ''.'' @ fp, False)"
    by (simp add: extractSign_def i)
  have d: "splitDot (ip @ ''.'' @ fp) = [ip, fp]"
    using splitDot_dot [OF digits_no_dot [OF ip(1)] digits_no_dot [OF fp]] by simp
  show ?thesis
  proof (cases "fp = []")
    case True
    with c have "b = a" by simp
    with True a s d show ?thesis by (simp add: BasePhi_decode_def)
  next
    case False
    with b have "decLoop [''0'', ''1''] (a, Phi - 1, 1) fp = Inr b" by simp
    with False a s d show ?thesis by (simp add: BasePhi_decode_def)
  qed
qed

lemma roundtrip_ge_2:
  assumes "2 \<le> n"
  shows "\<exists>s. BasePhi_encode_n [''0'', ''1''] (of_nat n) False = Some (s, False) \<and>
             BasePhi_decode [''0'', ''1''] s = Inr (int n, False)"
proof -
  define q :: rat where "q = of_nat n"
  have q2: "2 \<le> q" using assms by (simp add: q_def)
  from encode_state [OF q2]
  obtain e st where f: "findExp q 1 Phi 0 = Some (phiPow e, phiPow (e + 1), e)"
    and r: "reduceN (phiPow e) (phiPow (e + 1)) e
             \<lparr>remaining = q, exponents = [], decExponents = [], warned = False\<rparr> = Some st"
    and s: "stored q (- 241) st" and r0: "0 \<le> remaining st"
    and r1: "remaining st < 1 / (2 * 10 ^ 50)" by blast
  have s1: "sorted_wrt (<) (exponents st)" and s2: "\<forall>x\<in>set (exponents st). 0 \<le> x"
    and s3: "sorted_wrt (>) (decExponents st)" and s4: "\<forall>x\<in>set (decExponents st). x \<le> - 1"
    and s5: "q = remaining st + sumPow (exponents st) + sumPow (decExponents st)"
    and s6: "\<not> warned st"
    using s by (auto simp: stored_def)
  from renderExponents_decoded [OF s1 s2, of "[]"]
  obtain new1 where n1: "fst (renderExponents [''0'', ''1''] ([], 0) (exponents st)) = new1"
    and c1: "set new1 \<subseteq> {CHR ''0'', CHR ''1''}" and e1: "exponents st \<noteq> [] \<longrightarrow> new1 \<noteq> []"
    and p1: "\<And>m. posLoop [''0'', ''1''] (m, phiPow (0 - 1), phiPow 0) (rev new1)
               = Inr (m + sumPow (exponents st))" by auto
  define ip where "ip = (if new1 = [] then ''0'' else new1)"
  from renderDecExponents_decoded [OF s3 s4, of "ip @ ''.''"]
  obtain new2 where n2: "fst (renderDecExponents [''0'', ''1''] (ip @ ''.'', - 1) (decExponents st))
        = (ip @ ''.'') @ new2"
    and c2: "set new2 \<subseteq> {CHR ''0'', CHR ''1''}" and e2: "decExponents st \<noteq> [] \<longrightarrow> new2 \<noteq> []"
    and p2: "\<And>m. decLoop [''0'', ''1''] (m, phiPow (- 1), phiPow (- 1 + 1)) new2
               = Inr (m + sumPow (decExponents st))" by blast
  have q01: "q \<noteq> 0 \<and> q \<noteq> 1" using q2 by auto
  have o2: "(if new1 = [] then ''0.'' else new1 @ ''.'') = ip @ ''.''" by (simp add: ip_def)
  have enc: "BasePhi_encode_n [''0'', ''1''] q False = Some (ip @ ''.'' @ new2, False)"
    using q01 s6 by (simp add: BasePhi_encode_n_def f r Let_def n1 o2 n2)
  have ipc: "set ip \<subseteq> {CHR ''0'', CHR ''1''}" "ip \<noteq> []" using c1 by (auto simp: ip_def)
  have a: "posLoop [''0'', ''1''] (0, Phi - 1, 1) (rev ip) = Inr (sumPow (exponents st))"
  proof (cases "new1 = []")
    case True
    with e1 have "exponents st = []" by auto
    with True show ?thesis by (simp add: ip_def sumPow_def nextPhiExp_def)
  next
    case False
    with p1 [of 0] show ?thesis by (simp add: ip_def phiPow_0 phiPow_m1)
  qed
  have b: "new2 \<noteq> [] \<longrightarrow> decLoop [''0'', ''1''] (sumPow (exponents st), Phi - 1, 1) new2
      = Inr (sumPow (exponents st) + sumPow (decExponents st))"
    using p2 [of "sumPow (exponents st)"] by (simp add: phiPow_0 phiPow_m1)
  have c: "new2 = [] \<longrightarrow> sumPow (exponents st) + sumPow (decExponents st) = sumPow (exponents st)"
    using e2 by (auto simp: sumPow_def)
  from decode_rendered [OF ipc c2 a b c]
  have "BasePhi_decode [''0'', ''1''] (ip @ ''.'' @ new2)
      = Inr (\<lfloor>bigRound 0 (sumPow (exponents st) + sumPow (decExponents st))\<rfloor>, False)" .
  moreover have "sumPow (exponents st) + sumPow (decExponents st) = of_nat n - remaining st"
    using s5 by (simp add: q_def)
  moreover have "\<lfloor>bigRound 0 (of_nat n - remaining st)\<rfloor> = int n"
    using assms r0 r1 by (intro bigRound_near) simp_all
  ultimately have "BasePhi_decode [''0'', ''1''] (ip @ ''.'' @ new2) = Inr (int n, False)" by simp
  with enc show ?thesis unfolding q_def by blast
qed


text \<open>
  Claim C9. With the default charset \<open>0\<close> is encoded as "0" and \<open>1\<close> as "1", and for every
  non-negative integer \<open>n\<close> \<open>encode\<close> returns a string, without the warning, from which
  \<open>decode\<close> computes exactly \<open>n\<close>. The remainder that \<open>encode\<close> leaves is below
  \<open>5 * 10 ^ -51\<close>, and the sum that \<open>decode\<close> rounds differs from \<open>n\<close> by this remainder;
  the arithmetic of \<open>Big\<close> being exact, the 120 decimals of \<open>Phi\<close> are enough for every \<open>n\<close>.
\<close>

theorem BasePhi_decode_encode:
  "BasePhi_encode_n [''0'', ''1''] 0 False = Some (''0'', False) \<and>
   BasePhi_encode_n [''0'', ''1''] 1 False = Some (''1'', False) \<and>
   (\<exists>s. BasePhi_encode_n [''0'', ''1''] (of_nat n) False = Some (s, False) \<and>
        BasePhi_decode [''0'', ''1''] s = Inr (int n, False))"
proof -
  consider "n = 0" | "n = 1" | "2 \<le> n" by linarith
  then have "\<exists>s. BasePhi_encode_n [''0'', ''1''] (of_nat n) False = Some (s, False) \<and>
        BasePhi_decode [''0'', ''1''] s = Inr (int n, False)"
  proof cases
    case 1
    then show ?thesis using rt0 by simp
  next
    case 2
    then show ?thesis using rt1 by simp
  next
    case 3
    then show ?thesis by (rule roundtrip_ge_2)
  qed
  then show ?thesis using rt0 rt1 by simp
qed

theorem BasePhi_decode_encode_witness:
  "BasePhi_encode_n [''0'', ''1''] 12 False = Some (''100000.101001'', False) \<and>
   BasePhi_decode [''0'', ''1''] ''100000.101001'' = Inr (12, False)"
proof -
  from BasePhi_decode_encode [of 12]
  obtain s where "BasePhi_encode_n [''0'', ''1''] 12 False = Some (s, False)"
    and d: "BasePhi_decode [''0'', ''1''] s = Inr (12, False)" by auto
  moreover have e: "BasePhi_encode_n [''0'', ''1''] 12 False = Some (''100000.101001'', False)"
    by (rule e12)
  ultimately have "s = ''100000.101001''" by simp
  with d e show ?thesis by simp
qed

end
